theory Spec2Isabelle
  imports Main "HOL-Library.Char_ord" "HOL-Library.List_Lexorder" "HOL-Library.Product_Lexorder"
    "HOL-Library.Multiset"
begin

section \<open>Strings of the host language\<close>

text \<open>
  A string is a list of code units; the model keeps the code units below 256, so a
  \<^typ>\<open>char\<close> is one code unit. The operations below are the built-in string
  operations the two diff modules call: \<open>trim\<close>, \<open>replace(/\s+/g, ' ')\<close>,
  \<open>toLowerCase\<close>, \<open>startsWith\<close>, \<open>split('\n')\<close> and the decimal rendering of
  an index inside a template literal.
\<close>

definition is_space :: "char \<Rightarrow> bool" where
  "is_space c = (of_char c \<in> {9, 10, 11, 12, 13, 32, 160 :: nat})"

definition trim :: "string \<Rightarrow> string" where
  "trim s = rev (dropWhile is_space (rev (dropWhile is_space s)))"

function collapse_ws :: "string \<Rightarrow> string" where
  "collapse_ws [] = []"
| "collapse_ws (c # cs) =
     (if is_space c then CHR '' '' # collapse_ws (dropWhile is_space cs)
      else c # collapse_ws cs)"
  by pat_completeness auto
termination
  by (relation "measure length") (auto simp: length_dropWhile_le less_Suc_eq_le)

definition lower_char :: "char \<Rightarrow> char" where
  "lower_char c =
     (let n = of_char c :: nat
      in if (65 \<le> n \<and> n \<le> 90) \<or> (192 \<le> n \<and> n \<le> 222 \<and> n \<noteq> 215)
         then char_of (n + 32) else c)"

definition toLowerCase :: "string \<Rightarrow> string" where
  "toLowerCase s = map lower_char s"

definition startsWith :: "string \<Rightarrow> string \<Rightarrow> bool" where
  "startsWith s p = (take (length p) s = p)"

definition digit_char :: "nat \<Rightarrow> char" where
  "digit_char n = char_of (48 + n)"

function show_nat :: "nat \<Rightarrow> string" where
  "show_nat n = (if n < 10 then [digit_char n] else show_nat (n div 10) @ [digit_char (n mod 10)])"
  by pat_completeness auto
termination
  by (relation "measure id") auto

declare show_nat.simps [simp del]

definition show_int :: "int \<Rightarrow> string" where
  "show_int i = (if i < 0 then CHR ''-'' # show_nat (nat (- i)) else show_nat (nat i))"

fun join :: "string \<Rightarrow> string list \<Rightarrow> string" where
  "join sep [] = []"
| "join sep [x] = x"
| "join sep (x # y # ys) = x @ sep @ join sep (y # ys)"

definition endsWith :: "string \<Rightarrow> string \<Rightarrow> bool" where
  "endsWith s e = (length e \<le> length s \<and> drop (length s - length e) s = e)"

fun split_on :: "char \<Rightarrow> string \<Rightarrow> string list" where
  "split_on c [] = [[]]"
| "split_on c (x # xs) =
     (if x = c then [] # split_on c xs
      else (case split_on c xs of y # ys \<Rightarrow> (x # y) # ys | [] \<Rightarrow> [[x]]))"

section \<open>Parsed documents\<close>

text \<open>
  The parsers hand back a tree of null, booleans, numbers, strings, arrays and
  objects. Numbers are modelled by integers: the diff engines only compare them and
  print them (fractions, and the \<open>NaN\<close> and infinities that only YAML can produce,
  are left out). An object is the list of its own entries in enumeration order; the
  parsers never produce a repeated key.
\<close>

datatype jvalue =
    JNull
  | JBool bool
  | JNum int
  | JStr string
  | JArr "jvalue list"
  | JObj "(string \<times> jvalue) list"

text \<open>
  What \<open>compareDeep\<close> can be handed is wider than a parsed value: a property read
  \<open>obj[key]\<close> yields \<open>undefined\<close> for a missing name and, for the names every object
  inherits from \<open>Object.prototype\<close>, the inherited member.
\<close>

datatype operand = Undefined | Builtin string | Val jvalue

fun vsize :: "jvalue \<Rightarrow> nat" where
  "vsize (JArr xs) = Suc (sum_list (map vsize xs))"
| "vsize (JObj kvs) = Suc (sum_list (map (\<lambda>(k, v). vsize v) kvs))"
| "vsize v = 1"

fun osize :: "operand \<Rightarrow> nat" where
  "osize (Val v) = vsize v"
| "osize x = 0"

subsection \<open>JSON.stringify\<close>

definition hex_digit :: "nat \<Rightarrow> char" where
  "hex_digit n = (if n < 10 then char_of (48 + n) else char_of (87 + n))"

definition escape_char :: "char \<Rightarrow> string" where
  "escape_char c =
     (let n = of_char c :: nat
      in if n = 8 then [CHR 0x5C, CHR ''b'']
         else if n = 9 then [CHR 0x5C, CHR ''t'']
         else if n = 10 then [CHR 0x5C, CHR ''n'']
         else if n = 12 then [CHR 0x5C, CHR ''f'']
         else if n = 13 then [CHR 0x5C, CHR ''r'']
         else if n = 34 then [CHR 0x5C, CHR 0x22]
         else if n = 92 then [CHR 0x5C, CHR 0x5C]
         else if n < 32 then [CHR 0x5C, CHR ''u'', CHR ''0'', CHR ''0'', hex_digit (n div 16), hex_digit (n mod 16)]
         else [c])"

definition quoteJSON :: "string \<Rightarrow> string" where
  "quoteJSON s = CHR 0x22 # concat (map escape_char s) @ [CHR 0x22]"

text \<open>\<open>JSON.stringify(v)\<close>, the compact form used as the sort key of array elements.\<close>

fun stringify :: "jvalue \<Rightarrow> string" where
  "stringify JNull = ''null''"
| "stringify (JBool b) = (if b then ''true'' else ''false'')"
| "stringify (JNum n) = show_int n"
| "stringify (JStr s) = quoteJSON s"
| "stringify (JArr xs) = ''['' @ join '','' (map stringify xs) @ '']''"
| "stringify (JObj kvs) =
     ''{'' @ join '','' (map (\<lambda>(k, v). quoteJSON k @ '':'' @ stringify v) kvs) @ ''}''"

definition nl :: string where
  "nl = [CHR 0x0A]"

text \<open>\<open>stringify_indent ind v\<close> serialises \<open>v\<close> where the current indentation is \<open>ind\<close>.\<close>

fun stringify_indent :: "string \<Rightarrow> jvalue \<Rightarrow> string" where
  "stringify_indent ind JNull = ''null''"
| "stringify_indent ind (JBool b) = (if b then ''true'' else ''false'')"
| "stringify_indent ind (JNum n) = show_int n"
| "stringify_indent ind (JStr s) = quoteJSON s"
| "stringify_indent ind (JArr xs) =
     (if xs = [] then ''[]''
      else ''['' @ nl @ (ind @ ''  '')
           @ join ('','' @ nl @ (ind @ ''  '')) (map (stringify_indent (ind @ ''  '')) xs)
           @ nl @ ind @ '']'')"
| "stringify_indent ind (JObj kvs) =
     (if kvs = [] then ''{}''
      else ''{'' @ nl @ (ind @ ''  '')
           @ join ('','' @ nl @ (ind @ ''  ''))
               (map (\<lambda>(k, v). quoteJSON k @ '': '' @ stringify_indent (ind @ ''  '') v) kvs)
           @ nl @ ind @ ''}'')"

definition stringify2 :: "jvalue \<Rightarrow> string" where
  "stringify2 v = stringify_indent [] v"

subsection \<open>Sorting\<close>

text \<open>
  \<open>Array.prototype.sort(cmp)\<close> is stable; for a consistent comparator every stable
  sort returns the same array, here the one insertion sort builds.
\<close>

fun insort_by :: "('a \<Rightarrow> 'a \<Rightarrow> int) \<Rightarrow> 'a \<Rightarrow> 'a list \<Rightarrow> 'a list" where
  "insort_by cmp x [] = [x]"
| "insort_by cmp x (y # ys) = (if cmp x y \<le> 0 then x # y # ys else y # insort_by cmp x ys)"

definition sort_by :: "('a \<Rightarrow> 'a \<Rightarrow> int) \<Rightarrow> 'a list \<Rightarrow> 'a list" where
  "sort_by cmp xs = foldr (insort_by cmp) xs []"

text \<open>
  \<open>sortObject\<close> sorts the keys with the default \<open>sort()\<close>, by code units, and
  re-inserts the entries in that order into a fresh object. An object enumerates its
  array-index keys first, in numeric order, and then its other keys in insertion order;
  so the fresh object holds the entries in the order of \<open>key_order\<close>.
\<close>

definition is_digit :: "char \<Rightarrow> bool" where
  "is_digit c = (48 \<le> (of_char c :: nat) \<and> (of_char c :: nat) \<le> 57)"

definition digits_value :: "string \<Rightarrow> int" where
  "digits_value k = foldl (\<lambda>n c. 10 * n + (of_char c - 48)) 0 k"

definition is_array_index :: "string \<Rightarrow> bool" where
  "is_array_index k =
     (k \<noteq> [] \<and> list_all is_digit k \<and> (k = ''0'' \<or> hd k \<noteq> CHR ''0'')
      \<and> digits_value k < 4294967295)"

definition key_order :: "string \<times> jvalue \<Rightarrow> bool \<times> int \<times> string" where
  "key_order e =
     (if is_array_index (fst e) then (False, digits_value (fst e), fst e) else (True, 0, fst e))"

section \<open>The semantic diff engine\<close>

record options =
  ignoreKeyOrder :: bool
  ignoreWhitespace :: bool
  ignoreCase :: bool
  ignoreArrayOrder :: bool
  syncScroll :: bool
  showWordDiff :: bool

datatype change_type = Added | Removed | Modified | Type_changed

text \<open>A field the source leaves out of a change record is \<open>None\<close>.\<close>

record change =
  ch_path :: string
  ch_type :: change_type
  oldValue :: "operand option"
  newValue :: "operand option"
  oldType :: "string option"
  newType :: "string option"

record summary =
  added :: nat
  removed :: nat
  modified :: nat
  typeChanged :: nat
  total :: nat

record semantic_diff_result =
  changes :: "change list"
  summary :: summary
  isIdentical :: bool

datatype format_type = Json | Yaml | Auto

text \<open>
  The collaborators outside the repository: the two parsers (\<open>Inl\<close> carries the message
  of the error thrown; \<open>yaml.load\<close> may return \<open>undefined\<close>, here \<open>None\<close>) and the
  collation behind \<open>localeCompare\<close>.
\<close>

record parsers =
  JSON_parse :: "string \<Rightarrow> string + jvalue"
  yaml_load :: "string \<Rightarrow> string + jvalue option"

type_synonym collation = "string \<Rightarrow> string \<Rightarrow> int"

fun getType :: "operand \<Rightarrow> string" where
  "getType (Val JNull) = ''null''"
| "getType (Val (JArr xs)) = ''array''"
| "getType (Val (JBool b)) = ''boolean''"
| "getType (Val (JNum n)) = ''number''"
| "getType (Val (JStr s)) = ''string''"
| "getType (Val (JObj kvs)) = ''object''"
| "getType Undefined = ''undefined''"
| "getType (Builtin f) = ''function''"

definition parseContent :: "parsers \<Rightarrow> string \<Rightarrow> format_type \<Rightarrow> string + jvalue option" where
  "parseContent ps content format =
     (if trim content = [] then Inr None
      else
        let actualFormat =
              (if format = Auto
               then (if startsWith (trim content) ''{'' \<or> startsWith (trim content) ''[''
                     then Json else Yaml)
               else format)
        in if actualFormat = Json
           then (case JSON_parse ps content of Inl e \<Rightarrow> Inl e | Inr v \<Rightarrow> Inr (Some v))
           else yaml_load ps content)"

fun sortObject :: "jvalue \<Rightarrow> jvalue" where
  "sortObject (JArr xs) = JArr (map sortObject xs)"
| "sortObject (JObj kvs) = JObj (sort_key key_order (map (\<lambda>(k, v). (k, sortObject v)) kvs))"
| "sortObject v = v"

definition sortArray :: "collation \<Rightarrow> jvalue list \<Rightarrow> jvalue list" where
  "sortArray lc arr = sort_by (\<lambda>a b. lc (stringify a) (stringify b)) (map sortObject arr)"

definition normalizeValue :: "operand \<Rightarrow> options \<Rightarrow> operand" where
  "normalizeValue v opts =
     (case v of
        Val (JStr s) \<Rightarrow>
          (let n1 = (if ignoreWhitespace opts then collapse_ws (trim s) else s);
               n2 = (if ignoreCase opts then toLowerCase n1 else n1)
           in Val (JStr n2))
      | _ \<Rightarrow> v)"

text \<open>
  \<open>key in obj\<close> and \<open>obj[key]\<close> on a plain object: the own entries first, then what
  \<open>Object.prototype\<close> supplies. Its members are functions, but for the accessor
  \<open>__proto__\<close>, which reads as the prototype itself, an object with no own entry.
  An own entry named \<open>__proto__\<close> is treated as any other entry: that an assignment
  to this name, as \<open>sortObject\<close> would make it, re-links the prototype instead of
  storing the entry is outside the model.
\<close>

definition prototype_functions :: "string list" where
  "prototype_functions =
     [''constructor'', ''__defineGetter__'', ''__defineSetter__'', ''hasOwnProperty'',
      ''__lookupGetter__'', ''__lookupSetter__'', ''isPrototypeOf'',
      ''propertyIsEnumerable'', ''toString'', ''valueOf'', ''toLocaleString'']"

definition has_property :: "(string \<times> jvalue) list \<Rightarrow> string \<Rightarrow> bool" where
  "has_property obj key =
     (key \<in> set (map fst obj) \<or> key \<in> set prototype_functions \<or> key = ''__proto__'')"

definition get_property :: "(string \<times> jvalue) list \<Rightarrow> string \<Rightarrow> operand" where
  "get_property obj key =
     (case map_of obj key of
        Some v \<Rightarrow> Val v
      | None \<Rightarrow>
          if key \<in> set prototype_functions then Builtin key
          else if key = ''__proto__'' then Val (JObj [])
          else Undefined)"

definition or_root :: "string \<Rightarrow> string" where
  "or_root p = (if p = [] then ''$'' else p)"

definition push :: "change list \<Rightarrow> change \<Rightarrow> change list" where
  "push cs c = cs @ [c]"

definition as_record :: "jvalue \<Rightarrow> (string \<times> jvalue) list" where
  "as_record v = (case v of JObj kvs \<Rightarrow> kvs | _ \<Rightarrow> [])"

text \<open>\<open>new Set(xs)\<close> iterates in insertion order: each element where it first occurs.\<close>

definition new_Set :: "'a list \<Rightarrow> 'a list" where
  "new_Set xs = rev (remdups (rev xs))"

text \<open>
  \<open>compareDeep\<close> returns the list it was given with the changes it pushes. The loop
  over the indices and the loop over the set of keys are folds over the accumulator.
\<close>

function compareDeep ::
  "collation \<Rightarrow> operand \<Rightarrow> operand \<Rightarrow> string \<Rightarrow> change list \<Rightarrow> options \<Rightarrow> change list"
where
  "compareDeep lc left right p cs opts =
     (if getType left \<noteq> getType right then
        push cs \<lparr>ch_path = or_root p, ch_type = Type_changed,
                 oldValue = Some left, newValue = Some right,
                 oldType = Some (getType left), newType = Some (getType right)\<rparr>
      else if left = Val JNull \<or> left = Undefined then
        (if left \<noteq> right then
           push cs \<lparr>ch_path = or_root p, ch_type = Modified,
                    oldValue = Some left, newValue = Some right,
                    oldType = None, newType = None\<rparr>
         else cs)
      else
        (case (left, right) of
           (Val (JArr la), Val (JArr ra)) \<Rightarrow>
             (let leftArr = (if ignoreArrayOrder opts then sortArray lc la else la);
                  rightArr = (if ignoreArrayOrder opts then sortArray lc ra else ra);
                  maxLength = max (length leftArr) (length rightArr)
              in foldl
                   (\<lambda>acc i.
                      let itemPath = p @ ''['' @ show_nat i @ '']''
                      in if i \<ge> length leftArr then
                           push acc \<lparr>ch_path = itemPath, ch_type = Added,
                                     oldValue = None, newValue = Some (Val (rightArr ! i)),
                                     oldType = None, newType = None\<rparr>
                         else if i \<ge> length rightArr then
                           push acc \<lparr>ch_path = itemPath, ch_type = Removed,
                                     oldValue = Some (Val (leftArr ! i)), newValue = None,
                                     oldType = None, newType = None\<rparr>
                         else compareDeep lc (Val (leftArr ! i)) (Val (rightArr ! i)) itemPath acc opts)
                   cs [0..<maxLength])
         | (Val (JObj lo), Val (JObj ro)) \<Rightarrow>
             (let leftObj = (if ignoreKeyOrder opts then as_record (sortObject (JObj lo)) else lo);
                  rightObj = (if ignoreKeyOrder opts then as_record (sortObject (JObj ro)) else ro);
                  allKeys = new_Set (map fst leftObj @ map fst rightObj)
              in foldl
                   (\<lambda>acc key.
                      let keyPath = (if p \<noteq> [] then p @ ''.'' @ key else key);
                          hasLeft = has_property leftObj key;
                          hasRight = has_property rightObj key
                      in if \<not> hasLeft \<and> hasRight then
                           push acc \<lparr>ch_path = keyPath, ch_type = Added,
                                     oldValue = None, newValue = Some (get_property rightObj key),
                                     oldType = None, newType = None\<rparr>
                         else if hasLeft \<and> \<not> hasRight then
                           push acc \<lparr>ch_path = keyPath, ch_type = Removed,
                                     oldValue = Some (get_property leftObj key), newValue = None,
                                     oldType = None, newType = None\<rparr>
                         else compareDeep lc (get_property leftObj key) (get_property rightObj key)
                                keyPath acc opts)
                   cs allKeys)
         | _ \<Rightarrow>
             (if normalizeValue left opts \<noteq> normalizeValue right opts then
                push cs \<lparr>ch_path = or_root p, ch_type = Modified,
                         oldValue = Some left, newValue = Some right,
                         oldType = None, newType = None\<rparr>
              else cs)))"
  by pat_completeness auto

subsection \<open>The entry point\<close>

definition summarize :: "change list \<Rightarrow> summary" where
  "summarize cs =
     \<lparr>added = length (filter (\<lambda>c. ch_type c = Added) cs),
      removed = length (filter (\<lambda>c. ch_type c = Removed) cs),
      modified = length (filter (\<lambda>c. ch_type c = Modified) cs),
      typeChanged = length (filter (\<lambda>c. ch_type c = Type_changed) cs),
      total = length cs\<rparr>"

definition parse_error_result :: "string \<Rightarrow> semantic_diff_result" where
  "parse_error_result msg =
     \<lparr>changes =
        [\<lparr>ch_path = ''$'', ch_type = Modified,
          oldValue = Some (Val (JStr (''Parse error: '' @ msg))), newValue = None,
          oldType = None, newType = None\<rparr>],
      summary = \<lparr>added = 0, removed = 0, modified = 1, typeChanged = 0, total = 1\<rparr>,
      isIdentical = False\<rparr>"

definition computeSemanticDiff ::
  "parsers \<Rightarrow> collation \<Rightarrow> string \<Rightarrow> string \<Rightarrow> format_type \<Rightarrow> format_type \<Rightarrow> options
     \<Rightarrow> semantic_diff_result"
where
  "computeSemanticDiff ps lc leftContent rightContent leftFormat rightFormat opts =
     (case parseContent ps leftContent leftFormat of
        Inl e \<Rightarrow> parse_error_result e
      | Inr left \<Rightarrow>
          (case parseContent ps rightContent rightFormat of
             Inl e \<Rightarrow> parse_error_result e
           | Inr right \<Rightarrow>
               if left = None \<and> right = None then
                 \<lparr>changes = [],
                  summary = \<lparr>added = 0, removed = 0, modified = 0, typeChanged = 0, total = 0\<rparr>,
                  isIdentical = True\<rparr>
               else
                 let cs =
                   (case left of
                      None \<Rightarrow>
                        push [] \<lparr>ch_path = ''$'', ch_type = Added,
                                 oldValue = None, newValue = map_option Val right,
                                 oldType = None, newType = None\<rparr>
                    | Some l \<Rightarrow>
                        (case right of
                           None \<Rightarrow>
                             push [] \<lparr>ch_path = ''$'', ch_type = Removed,
                                      oldValue = Some (Val l), newValue = None,
                                      oldType = None, newType = None\<rparr>
                         | Some r \<Rightarrow> compareDeep lc (Val l) (Val r) [] [] opts))
                 in \<lparr>changes = cs, summary = summarize cs, isIdentical = (length cs = 0)\<rparr>))"

text \<open>The options the application starts with (the store's initial state).\<close>

definition defaultOptions :: options where
  "defaultOptions =
     \<lparr>ignoreKeyOrder = False, ignoreWhitespace = False, ignoreCase = False,
      ignoreArrayOrder = False, syncScroll = True, showWordDiff = False\<rparr>"

section \<open>The textual diff adapter\<close>

subsection \<open>Canonical text\<close>

fun sortObjectDeep :: "jvalue \<Rightarrow> jvalue" where
  "sortObjectDeep (JArr xs) = JArr (map sortObjectDeep xs)"
| "sortObjectDeep (JObj kvs) = JObj (sort_key key_order (map (\<lambda>(k, v). (k, sortObjectDeep v)) kvs))"
| "sortObjectDeep v = v"

fun sortArraysDeep :: "collation \<Rightarrow> jvalue \<Rightarrow> jvalue" where
  "sortArraysDeep lc (JArr xs) =
     JArr (sort_by (\<lambda>a b. lc (stringify a) (stringify b)) (map (sortArraysDeep lc) xs))"
| "sortArraysDeep lc (JObj kvs) = JObj (map (\<lambda>(k, v). (k, sortArraysDeep lc v)) kvs)"
| "sortArraysDeep lc v = v"

text \<open>\<open>typeof parsed === 'object' && parsed !== null\<close>: an array or an object.\<close>

fun is_object :: "jvalue \<Rightarrow> bool" where
  "is_object (JArr xs) = True"
| "is_object (JObj kvs) = True"
| "is_object v = False"

text \<open>
  The text handed to the parser and the parser chosen for it; then the canonical text.
  The fallback of the \<open>catch\<close> block works on the raw text. \<open>JSON.stringify(undefined)\<close>
  is \<open>undefined\<close>: with neither \<open>ignoreWhitespace\<close> nor \<open>ignoreCase\<close> that is what is
  returned (\<open>None\<close>); with one of them the method call on it throws and the \<open>catch\<close>
  block takes over.
\<close>

definition parse_document :: "parsers \<Rightarrow> string \<Rightarrow> format_type \<Rightarrow> string + jvalue option" where
  "parse_document ps content format =
     (if format = Json \<or>
         (format = Auto \<and> (startsWith (trim content) ''{'' \<or> startsWith (trim content) ''[''))
      then (case JSON_parse ps content of Inl e \<Rightarrow> Inl e | Inr v \<Rightarrow> Inr (Some v))
      else yaml_load ps content)"

definition text_options :: "options \<Rightarrow> string \<Rightarrow> string" where
  "text_options opts s =
     (let s1 = (if ignoreWhitespace opts then collapse_ws s else s)
      in if ignoreCase opts then toLowerCase s1 else s1)"

definition normalizeContent ::
  "parsers \<Rightarrow> collation \<Rightarrow> string \<Rightarrow> format_type \<Rightarrow> options \<Rightarrow> string option" where
  "normalizeContent ps lc content format opts =
     (case parse_document ps content format of
        Inl e \<Rightarrow> Some (text_options opts content)
      | Inr None \<Rightarrow>
          if ignoreWhitespace opts \<or> ignoreCase opts then Some (text_options opts content)
          else None
      | Inr (Some parsed) \<Rightarrow>
          let p1 = (if ignoreKeyOrder opts \<and> is_object parsed then sortObjectDeep parsed else parsed);
              p2 = (if ignoreArrayOrder opts \<and> is_object p1 then sortArraysDeep lc p1 else p1)
          in Some (text_options opts (stringify2 p2)))"

subsection \<open>Lines\<close>

datatype line_type = L_unchanged | L_added | L_removed | L_modified

datatype word_type = W_unchanged | W_added | W_removed

record WordDiff =
  wd_value :: string
  wd_type :: word_type

record DiffLine =
  lineNumber :: nat
  content :: string
  dl_type :: line_type
  wordDiff :: "WordDiff list option"

record DiffResult =
  dr_left :: "DiffLine list"
  dr_right :: "DiffLine list"
  hasDifferences :: bool
  addedCount :: nat
  removedCount :: nat
  modifiedCount :: nat

text \<open>
  One entry of what the diff library returns: a block of text, flagged as added, as
  removed, or as neither. The library is a collaborator: \<open>diffLines\<close> and \<open>diffWords\<close>
  on two strings.
\<close>

record hunk =
  hk_value :: string
  hk_added :: bool
  hk_removed :: bool

record differ =
  diffLines :: "string \<Rightarrow> string \<Rightarrow> hunk list"
  diffWords :: "string \<Rightarrow> string \<Rightarrow> hunk list"

definition hunk_lines :: "string \<Rightarrow> string list" where
  "hunk_lines v =
     (let arr = split_on (CHR 0x0A) v
      in map snd (filter (\<lambda>(i, x). i < length arr - 1 \<or> endsWith v nl = False) (enumerate 0 arr)))"

record diff_state =
  leftLines :: "DiffLine list"
  rightLines :: "DiffLine list"
  leftLineNum :: nat
  rightLineNum :: nat
  st_addedCount :: nat
  st_removedCount :: nat
  st_modifiedCount :: nat

definition add_line :: "diff_state \<Rightarrow> string \<Rightarrow> diff_state" where
  "add_line st line =
     st\<lparr>rightLineNum := rightLineNum st + 1,
        rightLines := rightLines st @
          [\<lparr>lineNumber = rightLineNum st + 1, content = line, dl_type = L_added, wordDiff = None\<rparr>],
        st_addedCount := st_addedCount st + 1\<rparr>"

definition remove_line :: "diff_state \<Rightarrow> string \<Rightarrow> diff_state" where
  "remove_line st line =
     st\<lparr>leftLineNum := leftLineNum st + 1,
        leftLines := leftLines st @
          [\<lparr>lineNumber = leftLineNum st + 1, content = line, dl_type = L_removed, wordDiff = None\<rparr>],
        st_removedCount := st_removedCount st + 1\<rparr>"

definition keep_line :: "diff_state \<Rightarrow> string \<Rightarrow> diff_state" where
  "keep_line st line =
     st\<lparr>leftLineNum := leftLineNum st + 1,
        rightLineNum := rightLineNum st + 1,
        leftLines := leftLines st @
          [\<lparr>lineNumber = leftLineNum st + 1, content = line, dl_type = L_unchanged, wordDiff = None\<rparr>],
        rightLines := rightLines st @
          [\<lparr>lineNumber = rightLineNum st + 1, content = line, dl_type = L_unchanged, wordDiff = None\<rparr>]\<rparr>"

definition apply_hunk :: "diff_state \<Rightarrow> hunk \<Rightarrow> diff_state" where
  "apply_hunk st change =
     (let lines = hunk_lines (hk_value change)
      in if hk_added change then foldl add_line st lines
         else if hk_removed change then foldl remove_line st lines
         else foldl keep_line st lines)"

definition word_spans :: "hunk list \<Rightarrow> WordDiff list \<times> WordDiff list" where
  "word_spans wordChanges =
     foldl
       (\<lambda>(lw, rw) change.
          if hk_removed change then (lw @ [\<lparr>wd_value = hk_value change, wd_type = W_removed\<rparr>], rw)
          else if hk_added change then (lw, rw @ [\<lparr>wd_value = hk_value change, wd_type = W_added\<rparr>])
          else (lw @ [\<lparr>wd_value = hk_value change, wd_type = W_unchanged\<rparr>],
                rw @ [\<lparr>wd_value = hk_value change, wd_type = W_unchanged\<rparr>]))
       ([], []) wordChanges"

text \<open>
  The two-cursor walk of \<open>computeWordDiff\<close>; lines are updated in place, so the function
  returns both arrays. \<open>leftLine?.type\<close> is \<open>undefined\<close> past the end of an array.
\<close>

function computeWordDiff ::
  "differ \<Rightarrow> DiffLine list \<Rightarrow> DiffLine list \<Rightarrow> nat \<Rightarrow> nat \<Rightarrow> DiffLine list \<times> DiffLine list"
where
  "computeWordDiff d ls rs leftIndex rightIndex =
     (if leftIndex < length ls \<or> rightIndex < length rs then
        (if leftIndex < length ls \<and> dl_type (ls ! leftIndex) = L_removed \<and>
            rightIndex < length rs \<and> dl_type (rs ! rightIndex) = L_added then
           (let leftLine = ls ! leftIndex;
                rightLine = rs ! rightIndex;
                wordChanges = diffWords d (content leftLine) (content rightLine);
                spans = word_spans wordChanges
            in computeWordDiff d
                 (ls[leftIndex := leftLine\<lparr>wordDiff := Some (fst spans)\<rparr>])
                 (rs[rightIndex := rightLine\<lparr>wordDiff := Some (snd spans)\<rparr>])
                 (leftIndex + 1) (rightIndex + 1))
         else if leftIndex < length ls \<and> dl_type (ls ! leftIndex) = L_removed then
           computeWordDiff d ls rs (leftIndex + 1) rightIndex
         else if rightIndex < length rs \<and> dl_type (rs ! rightIndex) = L_added then
           computeWordDiff d ls rs leftIndex (rightIndex + 1)
         else computeWordDiff d ls rs (leftIndex + 1) (rightIndex + 1))
      else (ls, rs))"
  by pat_completeness auto
termination
  by (relation "measure (\<lambda>(d, ls, rs, i, j). (length ls - i) + (length rs - j))") auto

declare computeWordDiff.simps [simp del]

text \<open>
  \<open>diffLines\<close> takes two strings. Where \<open>normalizeContent\<close> has returned \<open>undefined\<close>
  the library, splitting its argument into lines, throws, and \<open>computeDiff\<close> has no
  result (\<open>None\<close>).
  The counters and line arrays the hunk loop updates are the fields of \<open>diff_state\<close>.
\<close>

definition computeDiff ::
  "parsers \<Rightarrow> collation \<Rightarrow> differ \<Rightarrow> string \<Rightarrow> string \<Rightarrow> format_type \<Rightarrow> format_type \<Rightarrow> options
     \<Rightarrow> DiffResult option"
where
  "computeDiff ps lc d leftContent rightContent leftFormat rightFormat opts =
     (case (normalizeContent ps lc leftContent leftFormat opts,
            normalizeContent ps lc rightContent rightFormat opts) of
        (Some normalizedLeft, Some normalizedRight) \<Rightarrow>
          let changes = diffLines d normalizedLeft normalizedRight;
              st = foldl apply_hunk
                     \<lparr>leftLines = [], rightLines = [], leftLineNum = 0, rightLineNum = 0,
                      st_addedCount = 0, st_removedCount = 0, st_modifiedCount = 0\<rparr> changes;
              lr = (if showWordDiff opts then computeWordDiff d (leftLines st) (rightLines st) 0 0
                    else (leftLines st, rightLines st))
          in Some \<lparr>dr_left = fst lr, dr_right = snd lr,
                   hasDifferences = (st_addedCount st > 0 \<or> st_removedCount st > 0
                                     \<or> st_modifiedCount st > 0),
                   addedCount = st_addedCount st, removedCount = st_removedCount st,
                   modifiedCount = st_modifiedCount st\<rparr>
      | _ \<Rightarrow> None)"

section \<open>The specification, in its own words\<close>


text \<open>
  The pairing of the word diff in the words of the specification: both line lists are
  walked in parallel; a removed line on the left facing an added line on the right is
  a pair, and both cursors move on; otherwise a removed line on the left is skipped, or
  else an added line on the right is skipped, or else both cursors move on. The walk
  only looks at the types of the lines.
\<close>

function greedy_pairs :: "line_type list \<Rightarrow> line_type list \<Rightarrow> nat \<Rightarrow> nat \<Rightarrow> (nat \<times> nat) list" where
  "greedy_pairs ts us i j =
     (if i < length ts \<or> j < length us then
        (if i < length ts \<and> ts ! i = L_removed \<and> j < length us \<and> us ! j = L_added then
           (i, j) # greedy_pairs ts us (i + 1) (j + 1)
         else if i < length ts \<and> ts ! i = L_removed then greedy_pairs ts us (i + 1) j
         else if j < length us \<and> us ! j = L_added then greedy_pairs ts us i (j + 1)
         else greedy_pairs ts us (i + 1) (j + 1))
      else [])"
  by pat_completeness auto
termination
  by (relation "measure (\<lambda>(ts, us, i, j). (length ts - i) + (length us - j))") auto

declare greedy_pairs.simps [simp del]

section \<open>Sample collaborators for the worked examples\<close>

text \<open>
  A collation that compares code unit by code unit, and the parsers' answers on the
  handful of texts the worked examples use (any other text is reported as a syntax
  error; the empty YAML document and the one of a single space load as \<open>undefined\<close>).
\<close>

definition codeunit_compare :: collation where
  "codeunit_compare a b = (if a < b then - 1 else if b < a then 1 else 0)"

definition dq :: "string \<Rightarrow> string" where
  "dq s = CHR 0x22 # s @ [CHR 0x22]"

definition doc_a1 :: string where
  "doc_a1 = [CHR ''{'', CHR 0x22, CHR ''a'', CHR 0x22, CHR '':'', CHR ''1'', CHR ''}'']"

definition doc_Aa :: string where
  "doc_Aa = ''{'' @ dq ''A'' @ '':1,'' @ dq ''a'' @ '':2}''"

definition canon_Aa_lower :: string where
  "canon_Aa_lower = ''{'' @ nl @ ''  '' @ dq ''a'' @ '': 1,'' @ nl @ ''  '' @ dq ''a'' @ '': 2'' @ nl @ ''}''"

definition canon_a2 :: string where
  "canon_a2 = ''{'' @ nl @ ''  '' @ dq ''a'' @ '': 2'' @ nl @ ''}''"

definition doc_ws :: string where
  "doc_ws = ''{'' @ dq ''a  b'' @ '':1,'' @ dq ''a b'' @ '':2}''"

definition canon_ws :: string where
  "canon_ws = ''{ '' @ dq ''a b'' @ '': 1, '' @ dq ''a b'' @ '': 2 }''"

definition canon_ws2 :: string where
  "canon_ws2 = ''{ '' @ dq ''a b'' @ '': 2 }''"

definition doc_ba :: string where
  "doc_ba = ''{'' @ dq ''b'' @ '':[2,1],'' @ dq ''a'' @ '':1}''"

definition canon_ba :: string where
  "canon_ba = ''{'' @ nl @ ''  '' @ dq ''a'' @ '': 1,'' @ nl @ ''  '' @ dq ''b'' @ '': ['' @ nl
     @ ''    1,'' @ nl @ ''    2'' @ nl @ ''  ]'' @ nl @ ''}''"

definition sample_texts :: "(string \<times> jvalue) list" where
  "sample_texts =
     [(doc_a1, JObj [(''a'', JNum 1)]),
      (''[1,2,3]'', JArr [JNum 1, JNum 2, JNum 3]),
      (''5'', JNum 5),
      (doc_Aa, JObj [(''A'', JNum 1), (''a'', JNum 2)]),
      (canon_Aa_lower, JObj [(''a'', JNum 2)]),
      (doc_ws, JObj [(''a  b'', JNum 1), (''a b'', JNum 2)]),
      (canon_ws, JObj [(''a b'', JNum 2)]),
      (doc_ba, JObj [(''b'', JArr [JNum 2, JNum 1]), (''a'', JNum 1)]),
      (canon_ba, JObj [(''a'', JNum 1), (''b'', JArr [JNum 1, JNum 2])])]"

definition sample_parsers :: parsers where
  "sample_parsers =
     \<lparr>JSON_parse =
        (\<lambda>s. case map_of sample_texts s of
               Some v \<Rightarrow> Inr v
             | None \<Rightarrow> Inl ''Unexpected end of JSON input''),
      yaml_load =
        (\<lambda>s. if s = [] \<or> s = '' '' then Inr None
             else case map_of sample_texts s of
                    Some v \<Rightarrow> Inr (Some v)
                  | None \<Rightarrow> Inl ''bad indentation of a mapping entry'')\<rparr>"

text \<open>
  A stand-in for the diff library in the worked examples: the line diff of the texts
  \<open>a/b/c\<close> and \<open>a/x/c\<close> (one line each), and otherwise the coarsest diff; the word
  diff of two different lines removes the one and adds the other.
\<close>

definition text_abc :: string where
  "text_abc = ''a'' @ nl @ ''b'' @ nl @ ''c''"

definition text_axc :: string where
  "text_axc = ''a'' @ nl @ ''x'' @ nl @ ''c''"

definition sample_differ :: differ where
  "sample_differ =
     \<lparr>diffLines =
        (\<lambda>a b. if a = text_abc \<and> b = text_axc then
                  [\<lparr>hk_value = ''a'' @ nl, hk_added = False, hk_removed = False\<rparr>,
                   \<lparr>hk_value = ''b'' @ nl, hk_added = False, hk_removed = True\<rparr>,
                   \<lparr>hk_value = ''x'' @ nl, hk_added = True, hk_removed = False\<rparr>,
                   \<lparr>hk_value = ''c'', hk_added = False, hk_removed = False\<rparr>]
                else if a = b then [\<lparr>hk_value = a, hk_added = False, hk_removed = False\<rparr>]
                else [\<lparr>hk_value = a, hk_added = False, hk_removed = True\<rparr>,
                      \<lparr>hk_value = b, hk_added = True, hk_removed = False\<rparr>]),
      diffWords =
        (\<lambda>a b. if a = b then [\<lparr>hk_value = a, hk_added = False, hk_removed = False\<rparr>]
                else [\<lparr>hk_value = a, hk_added = False, hk_removed = True\<rparr>,
                      \<lparr>hk_value = b, hk_added = True, hk_removed = False\<rparr>])\<rparr>"

section \<open>Auxiliary notions\<close>

text \<open>
  Notions the proofs are stated with: what one index and what one key contribute to a
  comparison, the multiset of the types of a list of changes, sortedness for a
  comparator and for the keys of a value, the lines with their word spans attached, and
  the invariants of the line builder.
\<close>

text \<open>The value \<open>normalizeContent\<close> serialises: the parsed value after the two sorting steps.\<close>

definition canonical_value :: "collation \<Rightarrow> options \<Rightarrow> jvalue \<Rightarrow> jvalue" where
  "canonical_value lc opts parsed =
     (let p1 = (if ignoreKeyOrder opts \<and> is_object parsed then sortObjectDeep parsed else parsed)
      in if ignoreArrayOrder opts \<and> is_object p1 then sortArraysDeep lc p1 else p1)"

abbreviation ordered_items :: "collation \<Rightarrow> options \<Rightarrow> jvalue list \<Rightarrow> jvalue list" where
  "ordered_items lc opts xs \<equiv> (if ignoreArrayOrder opts then sortArray lc xs else xs)"

abbreviation ordered_entries :: "options \<Rightarrow> (string \<times> jvalue) list \<Rightarrow> (string \<times> jvalue) list" where
  "ordered_entries opts kvs \<equiv> (if ignoreKeyOrder opts then as_record (sortObject (JObj kvs)) else kvs)"

abbreviation item_path :: "string \<Rightarrow> nat \<Rightarrow> string" where
  "item_path p i \<equiv> p @ ''['' @ show_nat i @ '']''"

abbreviation key_path :: "string \<Rightarrow> string \<Rightarrow> string" where
  "key_path p key \<equiv> (if p \<noteq> [] then p @ ''.'' @ key else key)"

definition item_changes ::
  "collation \<Rightarrow> jvalue list \<Rightarrow> jvalue list \<Rightarrow> string \<Rightarrow> options \<Rightarrow> nat \<Rightarrow> change list" where
  "item_changes lc leftArr rightArr p opts i =
     (if i \<ge> length leftArr then
        [\<lparr>ch_path = item_path p i, ch_type = Added,
          oldValue = None, newValue = Some (Val (rightArr ! i)), oldType = None, newType = None\<rparr>]
      else if i \<ge> length rightArr then
        [\<lparr>ch_path = item_path p i, ch_type = Removed,
          oldValue = Some (Val (leftArr ! i)), newValue = None, oldType = None, newType = None\<rparr>]
      else compareDeep lc (Val (leftArr ! i)) (Val (rightArr ! i)) (item_path p i) [] opts)"

definition key_changes ::
  "collation \<Rightarrow> (string \<times> jvalue) list \<Rightarrow> (string \<times> jvalue) list \<Rightarrow> string \<Rightarrow> options \<Rightarrow> string
     \<Rightarrow> change list" where
  "key_changes lc leftObj rightObj p opts key =
     (if \<not> has_property leftObj key \<and> has_property rightObj key then
        [\<lparr>ch_path = key_path p key, ch_type = Added,
          oldValue = None, newValue = Some (get_property rightObj key),
          oldType = None, newType = None\<rparr>]
      else if has_property leftObj key \<and> \<not> has_property rightObj key then
        [\<lparr>ch_path = key_path p key, ch_type = Removed,
          oldValue = Some (get_property leftObj key), newValue = None,
          oldType = None, newType = None\<rparr>]
      else compareDeep lc (get_property leftObj key) (get_property rightObj key)
             (key_path p key) [] opts)"

fun swap_type :: "change_type \<Rightarrow> change_type" where
  "swap_type Added = Removed"
| "swap_type Removed = Added"
| "swap_type t = t"

definition types_of :: "change list \<Rightarrow> change_type multiset" where
  "types_of cs = mset (map ch_type cs)"

fun sorted_by :: "('a \<Rightarrow> 'a \<Rightarrow> int) \<Rightarrow> 'a list \<Rightarrow> bool" where
  "sorted_by cmp [] = True"
| "sorted_by cmp [x] = True"
| "sorted_by cmp (x # y # ys) = (cmp x y \<le> 0 \<and> sorted_by cmp (y # ys))"

fun keys_sorted :: "jvalue \<Rightarrow> bool" where
  "keys_sorted (JArr xs) = (\<forall>x\<in>set xs. keys_sorted x)"
| "keys_sorted (JObj kvs) = (sorted (map key_order kvs) \<and> (\<forall>(k, v)\<in>set kvs. keys_sorted v))"
| "keys_sorted v = True"





definition attach_left :: "differ \<Rightarrow> DiffLine list \<Rightarrow> DiffLine list \<Rightarrow> (nat \<times> nat) list \<Rightarrow> nat \<Rightarrow> DiffLine" where
  "attach_left d ls rs pairs k =
     (case map_of pairs k of
        Some b \<Rightarrow> (ls ! k)\<lparr>wordDiff := Some (fst (word_spans (diffWords d (content (ls ! k)) (content (rs ! b)))))\<rparr>
      | None \<Rightarrow> ls ! k)"

definition attach_right :: "differ \<Rightarrow> DiffLine list \<Rightarrow> DiffLine list \<Rightarrow> (nat \<times> nat) list \<Rightarrow> nat \<Rightarrow> DiffLine" where
  "attach_right d ls rs pairs k =
     (case map_of (map prod.swap pairs) k of
        Some a \<Rightarrow> (rs ! k)\<lparr>wordDiff := Some (snd (word_spans (diffWords d (content (ls ! a)) (content (rs ! k)))))\<rparr>
      | None \<Rightarrow> rs ! k)"

definition no_spans :: "diff_state \<Rightarrow> bool" where
  "no_spans st = ((\<forall>x\<in>set (leftLines st). wordDiff x = None) \<and> (\<forall>x\<in>set (rightLines st). wordDiff x = None))"

definition count_type :: "line_type \<Rightarrow> DiffLine list \<Rightarrow> nat" where
  "count_type t xs = length (filter (\<lambda>x. dl_type x = t) xs)"

definition counts_ok :: "diff_state \<Rightarrow> bool" where
  "counts_ok st =
     (st_addedCount st = count_type L_added (rightLines st)
      \<and> st_removedCount st = count_type L_removed (leftLines st)
      \<and> st_modifiedCount st = 0)"

section \<open>Termination of the comparison\<close>

lemma mset_insort_by: "mset (insort_by c x xs) = add_mset x (mset xs)"
  by (induction xs) auto

lemma mset_sort_by: "mset (sort_by c xs) = mset xs"
  by (induction xs) (auto simp: sort_by_def mset_insort_by)

lemma set_sort_by: "set (sort_by c xs) = set xs"
  using mset_sort_by [of c xs] by (metis set_mset_mset)

lemma length_sort_by: "length (sort_by c xs) = length xs"
  using mset_sort_by [of c xs] by (metis size_mset)

lemma sum_list_sort_key: "sum_list (map f (sort_key k xs)) = sum_list (map (f :: 'a \<Rightarrow> nat) xs)"
proof -
  have "mset (map f (sort_key k xs)) = mset (map f xs)"
    by simp
  then have "sum_mset (mset (map f (sort_key k xs))) = sum_mset (mset (map f xs))"
    by (rule arg_cong)
  then show ?thesis
    by (simp only: sum_mset_sum_list)
qed

lemma vsize_sortObject: "vsize (sortObject v) = vsize v"
proof (induction v rule: sortObject.induct)
  case (1 xs)
  then have "sum_list (map (\<lambda>x. vsize (sortObject x)) xs) = sum_list (map vsize xs)"
    by (intro arg_cong [where f = sum_list] map_cong) auto
  then show ?case by (simp add: comp_def)
next
  case (2 kvs)
  have "sum_list (map ((\<lambda>(k, v). vsize v) \<circ> (\<lambda>(k, v). (k, sortObject v))) kvs)
      = sum_list (map (\<lambda>(k, v). vsize v) kvs)"
    using 2 by (intro arg_cong [where f = sum_list] map_cong) auto
  then show ?case
    by (simp add: sum_list_sort_key)
qed simp_all

lemma vsize_elem: "x \<in> set xs \<Longrightarrow> vsize x < vsize (JArr xs)"
  using member_le_sum_list [of "vsize x" "map vsize xs"] by (simp add: less_Suc_eq_le)

lemma vsize_sortArray_elem: "x \<in> set (sortArray lc xs) \<Longrightarrow> vsize x < vsize (JArr xs)"
proof -
  assume "x \<in> set (sortArray lc xs)"
  then obtain y where "y \<in> set xs" "x = sortObject y"
    by (auto simp: sortArray_def set_sort_by)
  then show ?thesis
    using vsize_elem [of y xs] by (simp add: vsize_sortObject)
qed

lemma vsize_entry: "(k, v) \<in> set kvs \<Longrightarrow> vsize v < vsize (JObj kvs)"
  using member_le_sum_list [of "vsize v" "map (\<lambda>(k, v). vsize v) kvs"]
  by (force simp: less_Suc_eq_le)

lemma osize_get_property_le: "osize (get_property obj key) \<le> vsize (JObj obj)"
  by (auto simp: get_property_def split: option.splits dest!: map_of_SomeD vsize_entry)

lemma osize_get_property_less:
  "key \<in> set (map fst obj) \<Longrightarrow> osize (get_property obj key) < vsize (JObj obj)"
proof -
  assume "key \<in> set (map fst obj)"
  then obtain v where v: "map_of obj key = Some v"
    by (cases "map_of obj key") (auto simp: map_of_eq_None_iff)
  then have "(key, v) \<in> set obj"
    by (rule map_of_SomeD)
  then show ?thesis
    using v vsize_entry [of key v obj] by (simp add: get_property_def del: vsize.simps)
qed

lemma vsize_as_record_sortObject: "vsize (JObj (as_record (sortObject (JObj kvs)))) = vsize (JObj kvs)"
  using vsize_sortObject [of "JObj kvs"] by (simp add: as_record_def)

lemma set_new_Set: "set (new_Set xs) = set xs"
  by (simp add: new_Set_def)

text \<open>Every recursive call is on a strictly smaller pair of operands.\<close>

termination compareDeep
proof (relation "measure (\<lambda>(lc, l, r, p, cs, opts). osize l + osize r)", goal_cases)
  case 1
  show ?case by simp
next
  case (2 lc left right p cs opts x y x3 x5 x3a x5a xa xb xc a xd xe)
  have "xa ! xd \<in> set xa" "xb ! xd \<in> set xb"
    using 2 by simp_all
  then have "vsize (xa ! xd) < vsize (JArr x5)" "vsize (xb ! xd) < vsize (JArr x5a)"
    using 2(8,9) vsize_elem [of "xa ! xd" x5] vsize_sortArray_elem [of "xa ! xd" lc x5]
      vsize_elem [of "xb ! xd" x5a] vsize_sortArray_elem [of "xb ! xd" lc x5a]
    by (cases "ignoreArrayOrder opts"; simp del: vsize.simps)+
  moreover have "left = Val (JArr x5)" "right = Val (JArr x5a)"
    using 2 by auto
  ultimately show ?case
    by (simp del: vsize.simps)
next
  case (3 lc left right p cs opts x y x3 x6 x3a x6a xa xb xc a xd xe xf xg)
  have sz: "vsize (JObj xa) = vsize (JObj x6)" "vsize (JObj xb) = vsize (JObj x6a)"
    using 3 by (auto simp: vsize_as_record_sortObject simp del: sortObject.simps vsize.simps)
  have "xd \<in> set (map fst xa) \<or> xd \<in> set (map fst xb)"
    using 3 by (simp add: set_new_Set)
  then have "osize (get_property xa xd) + osize (get_property xb xd) < vsize (JObj xa) + vsize (JObj xb)"
    using osize_get_property_le [of xa xd] osize_get_property_le [of xb xd]
      osize_get_property_less [of xd xa] osize_get_property_less [of xd xb]
    by linarith
  moreover have "left = Val (JObj x6)" "right = Val (JObj x6a)"
    using 3 by auto
  ultimately show ?case
    using sz by (simp del: vsize.simps)
qed

declare compareDeep.simps [simp del]

section \<open>The comparison as a list of changes\<close>

text \<open>
  The accumulator only ever grows at its end, so a comparison is determined by the
  changes it appends to the empty list; the loops over indices and over keys are
  concatenations of what each index, each key, contributes.
\<close>

lemma compareDeep_induct [case_names step]:
  fixes P :: "collation \<Rightarrow> operand \<Rightarrow> operand \<Rightarrow> string \<Rightarrow> change list \<Rightarrow> options \<Rightarrow> bool"
  assumes step: "\<And>lc left right p cs opts.
     (\<And>la ra i acc. left = Val (JArr la) \<Longrightarrow> right = Val (JArr ra) \<Longrightarrow>
        i < length (ordered_items lc opts la) \<Longrightarrow> i < length (ordered_items lc opts ra) \<Longrightarrow>
        P lc (Val (ordered_items lc opts la ! i)) (Val (ordered_items lc opts ra ! i))
          (item_path p i) acc opts) \<Longrightarrow>
     (\<And>lo ro key acc. left = Val (JObj lo) \<Longrightarrow> right = Val (JObj ro) \<Longrightarrow>
        key \<in> set (map fst (ordered_entries opts lo)) \<union> set (map fst (ordered_entries opts ro)) \<Longrightarrow>
        has_property (ordered_entries opts lo) key = has_property (ordered_entries opts ro) key \<Longrightarrow>
        P lc (get_property (ordered_entries opts lo) key) (get_property (ordered_entries opts ro) key)
          (key_path p key) acc opts) \<Longrightarrow>
     P lc left right p cs opts"
  shows "P lc left right p cs opts"
proof (induction lc left right p cs opts rule: compareDeep.induct)
  case outer: (1 lc left right p cs opts)
  show ?case
  proof (rule step, goal_cases)
    case (1 la ra i acc)
    then show ?case
      using outer(1) [of left right "JArr la" la "JArr ra" ra _ _ _ i _ acc]
      by simp
  next
    case (2 lo ro key acc)
    then show ?case
      using outer(2) [of left right "JObj lo" lo "JObj ro" ro _ _ _ key _ _ _ acc]
      by (simp add: set_new_Set)
  qed
qed

lemma foldl_push_concat:
  "(\<And>acc x. x \<in> set xs \<Longrightarrow> f acc x = acc @ g x) \<Longrightarrow> foldl f cs xs = cs @ concat (map g xs)"
  by (induction xs arbitrary: cs) simp_all

lemma compareDeep_arrays_aux:
  assumes "\<And>i acc. i < length (ordered_items lc opts la) \<Longrightarrow> i < length (ordered_items lc opts ra) \<Longrightarrow>
     compareDeep lc (Val (ordered_items lc opts la ! i)) (Val (ordered_items lc opts ra ! i))
       (item_path p i) acc opts
     = acc @ compareDeep lc (Val (ordered_items lc opts la ! i)) (Val (ordered_items lc opts ra ! i))
       (item_path p i) [] opts"
  shows "compareDeep lc (Val (JArr la)) (Val (JArr ra)) p cs opts =
     cs @ concat (map (item_changes lc (ordered_items lc opts la) (ordered_items lc opts ra) p opts)
                   [0..<max (length (ordered_items lc opts la)) (length (ordered_items lc opts ra))])"
proof -
  define leftArr where "leftArr = ordered_items lc opts la"
  define rightArr where "rightArr = ordered_items lc opts ra"
  have "compareDeep lc (Val (JArr la)) (Val (JArr ra)) p cs opts =
    foldl (\<lambda>acc i.
             if i \<ge> length leftArr then
               acc @ [\<lparr>ch_path = item_path p i, ch_type = Added,
                        oldValue = None, newValue = Some (Val (rightArr ! i)),
                        oldType = None, newType = None\<rparr>]
             else if i \<ge> length rightArr then
               acc @ [\<lparr>ch_path = item_path p i, ch_type = Removed,
                        oldValue = Some (Val (leftArr ! i)), newValue = None,
                        oldType = None, newType = None\<rparr>]
             else compareDeep lc (Val (leftArr ! i)) (Val (rightArr ! i)) (item_path p i) acc opts)
       cs [0..<max (length leftArr) (length rightArr)]"
    unfolding leftArr_def rightArr_def
    apply (subst compareDeep.simps)
    apply (simp only: getType.simps push_def Let_def)
    apply (simp only: operand.simps jvalue.simps prod.case simp_thms if_False if_True)
    done
  also have "\<dots> = cs @ concat (map (item_changes lc leftArr rightArr p opts)
                                 [0..<max (length leftArr) (length rightArr)])"
  proof (intro foldl_push_concat, goal_cases)
    case (1 acc i)
    show ?case
    proof (cases "i < length leftArr \<and> i < length rightArr")
      case True
      then show ?thesis
        using assms [of i acc] unfolding leftArr_def [symmetric] rightArr_def [symmetric]
        by (simp add: item_changes_def)
    next
      case False
      then show ?thesis
        by (auto simp: item_changes_def)
    qed
  qed
  finally show ?thesis
    by (simp add: leftArr_def rightArr_def)
qed

lemma compareDeep_objects_aux:
  assumes "\<And>key acc.
     key \<in> set (map fst (ordered_entries opts lo)) \<union> set (map fst (ordered_entries opts ro)) \<Longrightarrow>
     has_property (ordered_entries opts lo) key = has_property (ordered_entries opts ro) key \<Longrightarrow>
     compareDeep lc (get_property (ordered_entries opts lo) key)
       (get_property (ordered_entries opts ro) key) (key_path p key) acc opts
     = acc @ compareDeep lc (get_property (ordered_entries opts lo) key)
       (get_property (ordered_entries opts ro) key) (key_path p key) [] opts"
  shows "compareDeep lc (Val (JObj lo)) (Val (JObj ro)) p cs opts =
     cs @ concat (map (key_changes lc (ordered_entries opts lo) (ordered_entries opts ro) p opts)
                   (new_Set (map fst (ordered_entries opts lo) @ map fst (ordered_entries opts ro))))"
proof -
  define leftObj where "leftObj = ordered_entries opts lo"
  define rightObj where "rightObj = ordered_entries opts ro"
  have "compareDeep lc (Val (JObj lo)) (Val (JObj ro)) p cs opts =
    foldl (\<lambda>acc key.
             if \<not> has_property leftObj key \<and> has_property rightObj key then
               acc @ [\<lparr>ch_path = key_path p key, ch_type = Added,
                        oldValue = None, newValue = Some (get_property rightObj key),
                        oldType = None, newType = None\<rparr>]
             else if has_property leftObj key \<and> \<not> has_property rightObj key then
               acc @ [\<lparr>ch_path = key_path p key, ch_type = Removed,
                        oldValue = Some (get_property leftObj key), newValue = None,
                        oldType = None, newType = None\<rparr>]
             else compareDeep lc (get_property leftObj key) (get_property rightObj key)
                    (key_path p key) acc opts)
       cs (new_Set (map fst leftObj @ map fst rightObj))"
    unfolding leftObj_def rightObj_def
    apply (subst compareDeep.simps)
    apply (simp only: getType.simps push_def Let_def)
    apply (simp only: operand.simps jvalue.simps prod.case simp_thms if_False if_True)
    done
  also have "\<dots> = cs @ concat (map (key_changes lc leftObj rightObj p opts)
                                 (new_Set (map fst leftObj @ map fst rightObj)))"
  proof (intro foldl_push_concat, goal_cases)
    case (1 acc key)
    then have "key \<in> set (map fst leftObj) \<union> set (map fst rightObj)"
      by (simp add: set_new_Set)
    then show ?case
      using assms [of key acc]
      unfolding leftObj_def [symmetric] rightObj_def [symmetric] key_changes_def
      by (cases "has_property leftObj key"; cases "has_property rightObj key"; simp)
  qed
  finally show ?thesis
    by (simp add: leftObj_def rightObj_def)
qed

lemma compareDeep_append:
  "compareDeep lc left right p cs opts = cs @ compareDeep lc left right p [] opts"
proof (induction lc left right p cs opts rule: compareDeep_induct)
  case (step lc left right p cs opts)
  consider (arr) la ra where "left = Val (JArr la)" "right = Val (JArr ra)"
    | (obj) lo ro where "left = Val (JObj lo)" "right = Val (JObj ro)"
    | (other) "\<not> (\<exists>la ra. left = Val (JArr la) \<and> right = Val (JArr ra))"
              "\<not> (\<exists>lo ro. left = Val (JObj lo) \<and> right = Val (JObj ro))"
    by blast
  then show ?case
  proof cases
    case arr
    have "compareDeep lc (Val (JArr la)) (Val (JArr ra)) p cs' opts =
      cs' @ concat (map (item_changes lc (ordered_items lc opts la) (ordered_items lc opts ra) p opts)
                   [0..<max (length (ordered_items lc opts la)) (length (ordered_items lc opts ra))])"
      for cs'
      using step(1) [OF arr] by (intro compareDeep_arrays_aux) blast
    from this [of cs] this [of "[]"] show ?thesis
      using arr by simp
  next
    case obj
    have "compareDeep lc (Val (JObj lo)) (Val (JObj ro)) p cs' opts =
     cs' @ concat (map (key_changes lc (ordered_entries opts lo) (ordered_entries opts ro) p opts)
                   (new_Set (map fst (ordered_entries opts lo) @ map fst (ordered_entries opts ro))))"
      for cs'
      using step(2) [OF obj] by (intro compareDeep_objects_aux) blast
    from this [of cs] this [of "[]"] show ?thesis
      using obj by simp
  next
    case other
    then show ?thesis
      by (subst (1 2) compareDeep.simps)
        (auto simp: push_def split: operand.splits jvalue.splits)
  qed
qed

lemma compareDeep_arrays:
  "compareDeep lc (Val (JArr la)) (Val (JArr ra)) p cs opts =
     cs @ concat (map (item_changes lc (ordered_items lc opts la) (ordered_items lc opts ra) p opts)
                   [0..<max (length (ordered_items lc opts la)) (length (ordered_items lc opts ra))])"
  by (rule compareDeep_arrays_aux) (rule compareDeep_append)

lemma compareDeep_objects:
  "compareDeep lc (Val (JObj lo)) (Val (JObj ro)) p cs opts =
     cs @ concat (map (key_changes lc (ordered_entries opts lo) (ordered_entries opts ro) p opts)
                   (new_Set (map fst (ordered_entries opts lo) @ map fst (ordered_entries opts ro))))"
  by (rule compareDeep_objects_aux) (rule compareDeep_append)







subsection \<open>Equal documents\<close>

text \<open>
  A value compared with itself gives no change, and neither do two objects with the
  same entries in different orders, whatever the options.
\<close>

lemma compareDeep_identical: "compareDeep lc x x p cs opts = cs"
proof -
  have "left = right \<longrightarrow> compareDeep lc left right p cs opts = cs" for left right
  proof (induction lc left right p cs opts rule: compareDeep_induct)
    case (step lc left right p cs opts)
    show ?case
    proof
      assume eq: "left = right"
      consider (arr) la where "left = Val (JArr la)"
        | (obj) lo where "left = Val (JObj lo)"
        | (other) "\<not> (\<exists>la. left = Val (JArr la))" "\<not> (\<exists>lo. left = Val (JObj lo))"
        by blast
      then show "compareDeep lc left right p cs opts = cs"
      proof cases
        case arr
        have "item_changes lc (ordered_items lc opts la) (ordered_items lc opts la) p opts i = []"
          if "i < length (ordered_items lc opts la)" for i
          using step(1) [of la la i "[]"] arr eq that by (simp add: item_changes_def)
        then have "concat (map (item_changes lc (ordered_items lc opts la) (ordered_items lc opts la) p opts)
            [0..<length (ordered_items lc opts la)]) = []"
          by simp
        then show ?thesis
          using arr eq by (simp add: compareDeep_arrays)
      next
        case obj
        have "key_changes lc (ordered_entries opts lo) (ordered_entries opts lo) p opts k = []"
          if "k \<in> set (map fst (ordered_entries opts lo))" for k
          using step(2) [of lo lo k "[]"] obj eq that by (simp add: key_changes_def)
        then have "concat (map (key_changes lc (ordered_entries opts lo) (ordered_entries opts lo) p opts)
            (new_Set (map fst (ordered_entries opts lo) @ map fst (ordered_entries opts lo)))) = []"
          by (simp add: set_new_Set)
        then show ?thesis
          using obj eq by (simp add: compareDeep_objects)
      next
        case other
        then show ?thesis
          using eq
          by (subst compareDeep.simps) (auto simp: push_def split: operand.splits jvalue.splits)
      qed
    qed
  qed
  then show ?thesis by simp
qed

lemma distinct_map_sort_key: "distinct (map g (sort_key f ys)) = distinct (map g ys)"
  by (rule mset_eq_imp_distinct_iff) simp

lemma map_fst_entries: "map fst (map (\<lambda>(k, v). (k, f v)) kvs) = map fst kvs"
  by (induction kvs) auto

lemma map_of_sortObject_entries:
  assumes "distinct (map fst kvs)"
  shows "map_of (as_record (sortObject (JObj kvs))) = map_option sortObject \<circ> map_of kvs"
proof -
  define es where "es = map (\<lambda>(k, v). (k, sortObject v)) kvs"
  have d: "distinct (map fst es)"
    using assms unfolding es_def by (simp only: map_fst_entries)
  then have "distinct (map fst (sort_key key_order es))"
    by (simp only: distinct_map_sort_key)
  moreover have "set (sort_key key_order es) = set es"
    by simp
  ultimately have "map_of (sort_key key_order es) = map_of es"
    using d by (subst map_of_inject_set) simp_all
  moreover have "map_of es = map_option sortObject \<circ> map_of kvs"
    unfolding es_def by (rule ext) (simp add: map_of_map)
  ultimately show ?thesis
    by (simp add: as_record_def es_def)
qed

lemma property_cong:
  assumes "map_of xs = map_of ys"
  shows "has_property xs key = has_property ys key" "get_property xs key = get_property ys key"
proof -
  have "set (map fst xs) = set (map fst ys)"
    using assms by (metis dom_map_of_conv_image_fst set_map)
  then show "has_property xs key = has_property ys key"
    by (simp add: has_property_def)
  show "get_property xs key = get_property ys key"
    using assms by (simp add: get_property_def)
qed

lemma compareDeep_reordered_objects:
  assumes "distinct (map fst lo)" "distinct (map fst ro)" "set lo = set ro"
  shows "compareDeep lc (Val (JObj lo)) (Val (JObj ro)) p cs opts = cs"
proof -
  have m: "map_of lo = map_of ro"
    using assms by (simp add: map_of_inject_set)
  have m': "map_of (ordered_entries opts lo) = map_of (ordered_entries opts ro)"
    using assms m by (simp add: map_of_sortObject_entries del: sortObject.simps)
  have "key_changes lc (ordered_entries opts lo) (ordered_entries opts ro) p opts k = []" for k
    using property_cong [OF m', of k]
    by (simp add: key_changes_def compareDeep_identical del: sortObject.simps)
  then show ?thesis
    by (simp add: compareDeep_objects del: sortObject.simps)
qed

subsection \<open>Canonical copies\<close>

text \<open>
  Sorting with a comparator, and the copy of a value with the keys of its objects
  sorted: the copy is canonical, a second pass changes nothing, and comparing a value
  with its copy gives no change.
\<close>

lemma sort_by_Cons: "sort_by cmp (x # xs) = insort_by cmp x (sort_by cmp xs)"
  by (simp add: sort_by_def)

lemma sort_by_Nil: "sort_by cmp [] = []"
  by (simp add: sort_by_def)

lemma sort_by_fixed: "sorted_by cmp xs \<Longrightarrow> sort_by cmp xs = xs"
  by (induction cmp xs rule: sorted_by.induct) (simp_all add: sort_by_Cons sort_by_Nil)

lemma sorted_by_insort:
  assumes total: "\<And>a b. cmp a b \<le> 0 \<or> cmp b a \<le> 0"
  shows "sorted_by cmp xs \<Longrightarrow> sorted_by cmp (insort_by cmp x xs)"
proof (induction xs rule: induct_list012)
  case 1
  show ?case by simp
next
  case (2 y)
  show ?case
    using total [of x y] by auto
next
  case (3 y z zs)
  then show ?case
    using total [of x y] by auto
qed

lemma sorted_by_sort_by:
  assumes total: "\<And>a b. cmp a b \<le> 0 \<or> cmp b a \<le> 0"
  shows "sorted_by cmp (sort_by cmp xs)"
  by (induction xs) (simp_all add: sort_by_Cons sort_by_Nil sorted_by_insort [OF total])

lemma keys_sorted_sortObjectDeep: "keys_sorted (sortObjectDeep v)"
proof (induction v rule: sortObjectDeep.induct)
  case (2 kvs)
  have "sorted (map key_order (sort_key key_order (map (\<lambda>(k, v). (k, sortObjectDeep v)) kvs)))"
    by (simp only: sorted_sort_key)
  then show ?case
    using 2 by auto
qed simp_all

lemma sortObjectDeep_fixed: "keys_sorted v \<Longrightarrow> sortObjectDeep v = v"
proof (induction v rule: sortObjectDeep.induct)
  case (1 xs)
  then have "map sortObjectDeep xs = xs"
    by (simp add: map_idI)
  then show ?case by simp
next
  case (2 kvs)
  then have "map (\<lambda>(k, v). (k, sortObjectDeep v)) kvs = kvs"
    by (intro map_idI) auto
  moreover have "sort_key key_order kvs = kvs"
    using 2(2) by (simp add: sort_key_id_if_sorted)
  ultimately show ?case by simp
qed simp_all











subsection \<open>Swapping the two sides\<close>

lemma types_of_simps [simp]:
  "types_of [] = {#}" "types_of (c # cs) = add_mset (ch_type c) (types_of cs)"
  "types_of (xs @ ys) = types_of xs + types_of ys"
  by (simp_all add: types_of_def)

lemma types_of_concat: "types_of (concat (map f xs)) = (\<Sum>x\<leftarrow>xs. types_of (f x))"
  by (induction xs) simp_all

lemma image_mset_sum_list: "image_mset h (\<Sum>x\<leftarrow>xs. g x) = (\<Sum>x\<leftarrow>xs. image_mset h (g x))"
  by (induction xs) simp_all

lemma distinct_new_Set: "distinct (new_Set xs)"
  by (simp add: new_Set_def)

lemma sum_list_new_Set_commute:
  fixes g :: "'a \<Rightarrow> 'b multiset"
  shows "(\<Sum>x\<leftarrow>new_Set (xs @ ys). g x) = (\<Sum>x\<leftarrow>new_Set (ys @ xs). g x)"
proof -
  have "(\<Sum>x\<leftarrow>new_Set (xs @ ys). g x) = sum g (set (new_Set (xs @ ys)))"
    by (rule sum_list_distinct_conv_sum_set) (rule distinct_new_Set)
  also have "set (new_Set (xs @ ys)) = set (new_Set (ys @ xs))"
    by (auto simp: set_new_Set)
  also have "sum g (set (new_Set (ys @ xs))) = (\<Sum>x\<leftarrow>new_Set (ys @ xs). g x)"
    by (rule sum_list_distinct_conv_sum_set [symmetric]) (rule distinct_new_Set)
  finally show ?thesis .
qed

lemma compareDeep_swap:
  "types_of (compareDeep lc right left p [] opts)
   = image_mset swap_type (types_of (compareDeep lc left right p [] opts))"
proof (induction lc left right p "[] :: change list" opts rule: compareDeep_induct)
  case (step lc left right p opts)
  consider (arr) la ra where "left = Val (JArr la)" "right = Val (JArr ra)"
    | (obj) lo ro where "left = Val (JObj lo)" "right = Val (JObj ro)"
    | (other) "\<not> (\<exists>la ra. left = Val (JArr la) \<and> right = Val (JArr ra))"
              "\<not> (\<exists>lo ro. left = Val (JObj lo) \<and> right = Val (JObj ro))"
    by blast
  then show ?case
  proof cases
    case arr
    define ls where "ls = ordered_items lc opts la"
    define rs where "rs = ordered_items lc opts ra"
    have "types_of (item_changes lc rs ls p opts i)
        = image_mset swap_type (types_of (item_changes lc ls rs p opts i))"
      if "i < max (length ls) (length rs)" for i
      using that step(1) [OF arr, of i] unfolding ls_def [symmetric] rs_def [symmetric]
      by (auto simp: item_changes_def)
    then have "(\<Sum>i\<leftarrow>[0..<max (length ls) (length rs)]. types_of (item_changes lc rs ls p opts i))
      = (\<Sum>i\<leftarrow>[0..<max (length ls) (length rs)]. image_mset swap_type (types_of (item_changes lc ls rs p opts i)))"
      by (intro arg_cong [where f = sum_list] map_cong) auto
    then show ?thesis
      unfolding arr compareDeep_arrays ls_def [symmetric] rs_def [symmetric]
      by (simp add: types_of_concat image_mset_sum_list max.commute)
  next
    case obj
    define ls where "ls = ordered_entries opts lo"
    define rs where "rs = ordered_entries opts ro"
    have "types_of (key_changes lc rs ls p opts k)
        = image_mset swap_type (types_of (key_changes lc ls rs p opts k))"
      if "k \<in> set (map fst ls) \<union> set (map fst rs)" for k
      using that step(2) [OF obj, of k] unfolding ls_def [symmetric] rs_def [symmetric]
      by (cases "has_property ls k"; cases "has_property rs k"; simp add: key_changes_def)
    then have "(\<Sum>k\<leftarrow>new_Set (map fst ls @ map fst rs). types_of (key_changes lc rs ls p opts k))
      = (\<Sum>k\<leftarrow>new_Set (map fst ls @ map fst rs). image_mset swap_type (types_of (key_changes lc ls rs p opts k)))"
      by (intro arg_cong [where f = sum_list] map_cong) (auto simp: set_new_Set)
    then show ?thesis
      unfolding obj compareDeep_objects ls_def [symmetric] rs_def [symmetric]
      by (simp add: types_of_concat image_mset_sum_list
          sum_list_new_Set_commute [of _ "map fst rs" "map fst ls"])
  next
    case other
    then show ?thesis
      apply (subst (1 2) compareDeep.simps)
      apply (auto simp: push_def split: operand.splits jvalue.splits)
      done
  qed
qed

lemma count_swap_type: "count (image_mset swap_type M) t = count M (swap_type t)"
proof (induction M)
  case empty
  show ?case by simp
next
  case (add x M)
  then show ?case
    by (cases x; cases t; simp)
qed

lemma length_filter_type: "length (filter (\<lambda>c. ch_type c = t) cs) = count (types_of cs) t"
  by (induction cs) (simp_all add: types_of_def)

lemma summarize_swap:
  "added (summarize (compareDeep lc right left p [] opts))
     = removed (summarize (compareDeep lc left right p [] opts))"
  "removed (summarize (compareDeep lc right left p [] opts))
     = added (summarize (compareDeep lc left right p [] opts))"
  "modified (summarize (compareDeep lc right left p [] opts))
     = modified (summarize (compareDeep lc left right p [] opts))"
  "typeChanged (summarize (compareDeep lc right left p [] opts))
     = typeChanged (summarize (compareDeep lc left right p [] opts))"
  by (simp_all add: summarize_def length_filter_type compareDeep_swap [of lc right left]
      count_swap_type)

section \<open>Properties of the semantic diff engine\<close>



text \<open>
  C2. The comparison of two objects walks the union of their keys and decides, for
  each key, between \<open>Added\<close>, \<open>Removed\<close> and a recursive comparison by asking
  \<open>key in obj\<close> on each side. That test also answers for the members every object
  inherits: against the empty object, the right-only key \<open>toString\<close> is not reported
  as \<open>Added\<close> but compared with the inherited function, which gives a type change from
  \<open>function\<close> to \<open>number\<close>, whatever the options.
\<close>

theorem compareDeep_inherited_key:
  "compareDeep lc (Val (JObj [])) (Val (JObj [(''toString'', JNum 1)])) [] [] opts =
     [\<lparr>ch_path = ''toString'', ch_type = Type_changed,
       oldValue = Some (Builtin ''toString''), newValue = Some (Val (JNum 1)),
       oldType = Some ''function'', newType = Some ''number''\<rparr>]"
proof -
  have "has_property [] ''toString''" "get_property [] ''toString'' = Builtin ''toString''"
    by (simp_all add: has_property_def get_property_def prototype_functions_def)
  then show ?thesis
    by (simp add: compareDeep_objects key_changes_def as_record_def new_Set_def has_property_def
        get_property_def compareDeep.simps [of lc "Builtin ''toString''"] push_def or_root_def)
qed



text \<open>
  C4. Two string leaves are compared after normalisation: trimmed and with every run
  of whitespace collapsed to one space when \<open>ignoreWhitespace\<close> is set, then lowercased
  when \<open>ignoreCase\<close> is set. Two numbers, and two booleans, are compared as they are.
  In each case a difference appends one \<open>Modified\<close> record whose old and new values are
  the original leaves, not the normalised ones; no difference appends nothing.
\<close>

theorem compareDeep_scalars:
  "compareDeep lc (Val (JStr a)) (Val (JStr b)) p cs opts =
     (let ws = (\<lambda>s. if ignoreWhitespace opts then collapse_ws (trim s) else s);
          lower = (\<lambda>s. if ignoreCase opts then toLowerCase s else s)
      in if lower (ws a) \<noteq> lower (ws b)
         then cs @ [\<lparr>ch_path = or_root p, ch_type = Modified,
                      oldValue = Some (Val (JStr a)), newValue = Some (Val (JStr b)),
                      oldType = None, newType = None\<rparr>]
         else cs)
   \<and> compareDeep lc (Val (JNum m)) (Val (JNum n)) p cs opts =
     (if m \<noteq> n
      then cs @ [\<lparr>ch_path = or_root p, ch_type = Modified,
                   oldValue = Some (Val (JNum m)), newValue = Some (Val (JNum n)),
                   oldType = None, newType = None\<rparr>]
      else cs)
   \<and> compareDeep lc (Val (JBool x)) (Val (JBool y)) p cs opts =
     (if x \<noteq> y
      then cs @ [\<lparr>ch_path = or_root p, ch_type = Modified,
                   oldValue = Some (Val (JBool x)), newValue = Some (Val (JBool y)),
                   oldType = None, newType = None\<rparr>]
      else cs)"
  by (simp add: compareDeep.simps [of lc "Val (JStr a)"] compareDeep.simps [of lc "Val (JNum m)"]
      compareDeep.simps [of lc "Val (JBool x)"] normalizeValue_def push_def Let_def)

theorem compareDeep_scalars_witness:
  "compareDeep codeunit_compare (Val (JStr ''  Hello   World '')) (Val (JStr ''hello world''))
     ''greeting'' []
     (defaultOptions\<lparr>ignoreWhitespace := True, ignoreCase := True\<rparr>) = []
   \<and> compareDeep codeunit_compare (Val (JStr ''  Hello   World '')) (Val (JStr ''hello world''))
     ''greeting'' [] (defaultOptions\<lparr>ignoreCase := True\<rparr>) =
       [\<lparr>ch_path = ''greeting'', ch_type = Modified,
         oldValue = Some (Val (JStr ''  Hello   World '')),
         newValue = Some (Val (JStr ''hello world'')),
         oldType = None, newType = None\<rparr>]
   \<and> compareDeep codeunit_compare (Val (JNum 1)) (Val (JNum 2)) [] [] defaultOptions =
       [\<lparr>ch_path = ''$'', ch_type = Modified,
         oldValue = Some (Val (JNum 1)), newValue = Some (Val (JNum 2)),
         oldType = None, newType = None\<rparr>]
   \<and> compareDeep codeunit_compare (Val (JBool True)) (Val (JBool True)) [] [] defaultOptions = []"
proof -
  have n1: "toLowerCase (collapse_ws (trim ''  Hello   World '')) = ''hello world''"
    and n2: "toLowerCase (collapse_ws (trim ''hello world'')) = ''hello world''"
    and n3: "toLowerCase ''  Hello   World '' = ''  hello   world ''"
    and n4: "toLowerCase ''hello world'' = ''hello world''"
    by code_simp+
  show ?thesis
    using
      compareDeep_scalars [of codeunit_compare "''  Hello   World ''" "''hello world''"
        "''greeting''" "[]" "defaultOptions\<lparr>ignoreWhitespace := True, ignoreCase := True\<rparr>"
        1 2 True True]
      compareDeep_scalars [of codeunit_compare "''  Hello   World ''" "''hello world''"
        "''greeting''" "[]" "defaultOptions\<lparr>ignoreCase := True\<rparr>" 1 2 True True]
      compareDeep_scalars [of codeunit_compare "''a''" "''a''" "[]" "[]" defaultOptions 1 2 True True]
    by (simp add: defaultOptions_def or_root_def n1 n2 n3 n4)
qed

text \<open>
  C5. When parsing the left text throws, or the left text parses and parsing the right
  text throws, \<open>computeSemanticDiff\<close> still returns a result: one \<open>Modified\<close> record at
  \<open>$\<close> whose old value is the text \<open>Parse error: \<close> followed by the error's message,
  the summary 0 added, 0 removed, 1 modified, 0 type changes, total 1, and
  \<open>isIdentical\<close> false. The structural comparison is not run.
\<close>

theorem computeSemanticDiff_parse_error:
  "parseContent ps l lf = Inl e \<or> (parseContent ps l lf = Inr v \<and> parseContent ps r rf = Inl e)
   \<Longrightarrow>
   computeSemanticDiff ps lc l r lf rf opts =
     \<lparr>changes =
        [\<lparr>ch_path = ''$'', ch_type = Modified,
          oldValue = Some (Val (JStr (''Parse error: '' @ e))), newValue = None,
          oldType = None, newType = None\<rparr>],
      summary = \<lparr>added = 0, removed = 0, modified = 1, typeChanged = 0, total = 1\<rparr>,
      isIdentical = False\<rparr>"
  by (auto simp: computeSemanticDiff_def parse_error_result_def)

theorem computeSemanticDiff_parse_error_witness:
  "parseContent sample_parsers ''[1,2,3]'' Auto = Inr (Some (JArr [JNum 1, JNum 2, JNum 3]))
   \<and> parseContent sample_parsers ''[1,2'' Json = Inl ''Unexpected end of JSON input''
   \<and> computeSemanticDiff sample_parsers codeunit_compare ''[1,2,3]'' ''[1,2'' Auto Json
        defaultOptions =
     \<lparr>changes =
        [\<lparr>ch_path = ''$'', ch_type = Modified,
          oldValue = Some (Val (JStr ''Parse error: Unexpected end of JSON input'')),
          newValue = None, oldType = None, newType = None\<rparr>],
      summary = \<lparr>added = 0, removed = 0, modified = 1, typeChanged = 0, total = 1\<rparr>,
      isIdentical = False\<rparr>"
proof -
  have l: "parseContent sample_parsers ''[1,2,3]'' Auto = Inr (Some (JArr [JNum 1, JNum 2, JNum 3]))"
    by code_simp
  have r: "parseContent sample_parsers ''[1,2'' Json = Inl ''Unexpected end of JSON input''"
    by code_simp
  show ?thesis
    using l r
      computeSemanticDiff_parse_error [of sample_parsers "''[1,2,3]''" Auto
        "''Unexpected end of JSON input''" "Some (JArr [JNum 1, JNum 2, JNum 3])" "''[1,2''" Json
        codeunit_compare defaultOptions]
    by simp
qed



text \<open>
  C7. Swapping the two documents swaps the numbers of \<open>Added\<close> and \<open>Removed\<close> records
  and keeps the numbers of \<open>Modified\<close> and of type-change records: for the whole
  \<open>computeSemanticDiff\<close> (whatever the texts, formats and options, also when a text
  fails to parse or is absent) and for \<open>compareDeep\<close> on any two operands.
\<close>

theorem summary_counts_symmetric:
  "added (summary (computeSemanticDiff ps lc a b fa fb opts))
     = removed (summary (computeSemanticDiff ps lc b a fb fa opts))
   \<and> removed (summary (computeSemanticDiff ps lc a b fa fb opts))
     = added (summary (computeSemanticDiff ps lc b a fb fa opts))
   \<and> modified (summary (computeSemanticDiff ps lc a b fa fb opts))
     = modified (summary (computeSemanticDiff ps lc b a fb fa opts))
   \<and> typeChanged (summary (computeSemanticDiff ps lc a b fa fb opts))
     = typeChanged (summary (computeSemanticDiff ps lc b a fb fa opts))
   \<and> added (summarize (compareDeep lc left right p [] opts))
     = removed (summarize (compareDeep lc right left p [] opts))
   \<and> removed (summarize (compareDeep lc left right p [] opts))
     = added (summarize (compareDeep lc right left p [] opts))
   \<and> modified (summarize (compareDeep lc left right p [] opts))
     = modified (summarize (compareDeep lc right left p [] opts))
   \<and> typeChanged (summarize (compareDeep lc left right p [] opts))
     = typeChanged (summarize (compareDeep lc right left p [] opts))"
proof -
  have top: "added (summary (computeSemanticDiff ps lc a b fa fb opts))
     = removed (summary (computeSemanticDiff ps lc b a fb fa opts))
   \<and> removed (summary (computeSemanticDiff ps lc a b fa fb opts))
     = added (summary (computeSemanticDiff ps lc b a fb fa opts))
   \<and> modified (summary (computeSemanticDiff ps lc a b fa fb opts))
     = modified (summary (computeSemanticDiff ps lc b a fb fa opts))
   \<and> typeChanged (summary (computeSemanticDiff ps lc a b fa fb opts))
     = typeChanged (summary (computeSemanticDiff ps lc b a fb fa opts))"
  proof (cases "parseContent ps a fa")
    case (Inl e)
    then show ?thesis
      by (cases "parseContent ps b fb") (simp_all add: computeSemanticDiff_def parse_error_result_def)
  next
    case l: (Inr x)
    show ?thesis
    proof (cases "parseContent ps b fb")
      case (Inl e)
      then show ?thesis
        using l by (simp add: computeSemanticDiff_def parse_error_result_def)
    next
      case r: (Inr y)
      show ?thesis
      proof (cases "\<exists>u v. x = Some u \<and> y = Some v")
        case True
        then obtain u v where "x = Some u" "y = Some v"
          by blast
        then show ?thesis
          using l r
          by (simp add: computeSemanticDiff_def Let_def summarize_swap [of lc "Val v" "Val u"])
      next
        case False
        then show ?thesis
          using l r
          by (cases x; cases y) (simp_all add: computeSemanticDiff_def summarize_def push_def)
      qed
    qed
  qed
  show ?thesis
    using top by (simp add: summarize_swap [of lc right left])
qed

theorem summary_counts_symmetric_witness:
  "added (summarize (compareDeep codeunit_compare (Val (JObj [(''a'', JNum 1)]))
      (Val (JObj [(''a'', JNum 1), (''b'', JNum 2)])) [] [] defaultOptions)) = 1
   \<and> removed (summarize (compareDeep codeunit_compare (Val (JObj [(''a'', JNum 1), (''b'', JNum 2)]))
      (Val (JObj [(''a'', JNum 1)])) [] [] defaultOptions)) = 1"
proof -
  have "compareDeep codeunit_compare (Val (JObj [(''a'', JNum 1)]))
      (Val (JObj [(''a'', JNum 1), (''b'', JNum 2)])) [] [] defaultOptions =
      [\<lparr>ch_path = ''b'', ch_type = Added, oldValue = None, newValue = Some (Val (JNum 2)),
        oldType = None, newType = None\<rparr>]"
    by code_simp
  then have "added (summarize (compareDeep codeunit_compare (Val (JObj [(''a'', JNum 1)]))
      (Val (JObj [(''a'', JNum 1), (''b'', JNum 2)])) [] [] defaultOptions)) = 1"
    by (simp add: summarize_def)
  then show ?thesis
    using summary_counts_symmetric [of sample_parsers codeunit_compare "[]" "[]" Auto Auto
        defaultOptions "Val (JObj [(''a'', JNum 1)])" "Val (JObj [(''a'', JNum 1), (''b'', JNum 2)])" "[]"]
    by simp
qed

section \<open>Properties of the textual diff adapter\<close>

subsection \<open>Canonical text\<close>

lemma map_key_order_entries: "map (key_order \<circ> (\<lambda>(k, v). (k, f v))) kvs = map key_order kvs"
  by (induction kvs) (auto simp: key_order_def)

lemma keys_sorted_sortArraysDeep: "keys_sorted v \<Longrightarrow> keys_sorted (sortArraysDeep lc v)"
proof (induction lc v rule: sortArraysDeep.induct)
  case (1 lc xs)
  then show ?case
    by (auto simp: set_sort_by)
next
  case (2 lc kvs)
  then show ?case
    by (auto simp: map_key_order_entries)
qed simp_all

lemma sortArraysDeep_idem:
  assumes total: "\<And>a b. lc a b \<le> 0 \<or> lc b a \<le> 0"
  shows "sortArraysDeep lc (sortArraysDeep lc v) = sortArraysDeep lc v"
proof (induction v)
  case (JArr xs)
  let ?cmp = "\<lambda>a b. lc (stringify a) (stringify b)"
  let ?ys = "sort_by ?cmp (map (sortArraysDeep lc) xs)"
  have "sortArraysDeep lc y = y" if "y \<in> set ?ys" for y
    using that JArr by (auto simp: set_sort_by)
  then have "map (sortArraysDeep lc) ?ys = ?ys"
    by (simp add: map_idI)
  moreover have "sort_by ?cmp ?ys = ?ys"
    by (rule sort_by_fixed) (rule sorted_by_sort_by, rule total)
  ultimately show ?case
    by simp
next
  case (JObj kvs)
  have "sortArraysDeep lc (sortArraysDeep lc v) = sortArraysDeep lc v" if "(k, v) \<in> set kvs" for k v
    using that JObj by (force simp: snds.simps)
  then have "map ((\<lambda>(k, v). (k, sortArraysDeep lc v)) \<circ> (\<lambda>(k, v). (k, sortArraysDeep lc v))) kvs
      = map (\<lambda>(k, v). (k, sortArraysDeep lc v)) kvs"
    by (intro map_cong) auto
  then show ?case
    by simp
qed simp_all

lemma is_object_sorts [simp]:
  "is_object (sortObjectDeep v) = is_object v"
  "is_object (sortArraysDeep lc v) = is_object v"
  by (cases v; simp)+

lemma sorts_not_object:
  "\<not> is_object v \<Longrightarrow> sortObjectDeep v = v"
  "\<not> is_object v \<Longrightarrow> sortArraysDeep lc v = v"
  by (cases v; simp)+

lemma canonical_value_sorts:
  "canonical_value lc opts v =
     (if ignoreArrayOrder opts then sortArraysDeep lc else id)
       ((if ignoreKeyOrder opts then sortObjectDeep else id) v)"
  by (cases "is_object v") (simp_all add: canonical_value_def sorts_not_object)

lemma canonical_value_idem:
  assumes total: "\<And>a b. lc a b \<le> 0 \<or> lc b a \<le> 0"
  shows "canonical_value lc opts (canonical_value lc opts v) = canonical_value lc opts v"
proof -
  have a: "sortObjectDeep (sortObjectDeep v) = sortObjectDeep v"
    by (rule sortObjectDeep_fixed) (rule keys_sorted_sortObjectDeep)
  have b: "sortObjectDeep (sortArraysDeep lc (sortObjectDeep v)) = sortArraysDeep lc (sortObjectDeep v)"
    by (intro sortObjectDeep_fixed keys_sorted_sortArraysDeep keys_sorted_sortObjectDeep)
  show ?thesis
    by (simp add: canonical_value_sorts a b sortArraysDeep_idem [OF total])
qed

lemma normalizeContent_parsed:
  "parse_document ps c f = Inr (Some v) \<Longrightarrow>
   normalizeContent ps lc c f opts = Some (text_options opts (stringify2 (canonical_value lc opts v)))"
  by (simp add: normalizeContent_def canonical_value_def Let_def)

lemma codeunit_compare_total: "codeunit_compare a b \<le> 0 \<or> codeunit_compare b a \<le> 0"
  by (auto simp: codeunit_compare_def)

text \<open>
  C8. Canonicalising the canonical text again does not always give it back. With
  \<open>ignoreCase\<close> the whole serialised text is lowercased, keys included: the keys \<open>A\<close>
  and \<open>a\<close> of one object become the same key, and the second pass, reading the text
  again, keeps one entry only. With \<open>ignoreWhitespace\<close> the same happens to the keys
  \<open>a  b\<close> and \<open>a b\<close>.
\<close>

theorem normalizeContent_not_idempotent:
  "normalizeContent sample_parsers codeunit_compare doc_Aa Json (defaultOptions\<lparr>ignoreCase := True\<rparr>)
     = Some canon_Aa_lower
   \<and> normalizeContent sample_parsers codeunit_compare canon_Aa_lower Json
       (defaultOptions\<lparr>ignoreCase := True\<rparr>) = Some canon_a2
   \<and> canon_a2 \<noteq> canon_Aa_lower
   \<and> normalizeContent sample_parsers codeunit_compare doc_ws Json
       (defaultOptions\<lparr>ignoreWhitespace := True\<rparr>) = Some canon_ws
   \<and> normalizeContent sample_parsers codeunit_compare canon_ws Json
       (defaultOptions\<lparr>ignoreWhitespace := True\<rparr>) = Some canon_ws2
   \<and> canon_ws2 \<noteq> canon_ws"
  by code_simp

text \<open>
  C8, as amended. With neither \<open>ignoreWhitespace\<close> nor \<open>ignoreCase\<close>, for a collation
  that compares any two strings one way or the other, and a parser that reads the
  canonical text back as the value it serialises: whenever \<open>normalizeContent\<close> returns
  a text, \<open>normalizeContent\<close> of that text (same format, same options) returns it again.
\<close>

theorem normalizeContent_idempotent:
  assumes flags: "\<not> ignoreWhitespace opts" "\<not> ignoreCase opts"
    and total: "\<forall>a b. lc a b \<le> 0 \<or> lc b a \<le> 0"
    and first: "normalizeContent ps lc text format opts = Some n"
    and reread: "\<forall>v. parse_document ps text format = Inr (Some v) \<longrightarrow>
                   parse_document ps n format = Inr (Some (canonical_value lc opts v))"
  shows "normalizeContent ps lc n format opts = Some n"
proof (cases "parse_document ps text format")
  case (Inl e)
  then have "n = text"
    using first flags by (simp add: normalizeContent_def text_options_def)
  then show ?thesis
    using first by simp
next
  case (Inr r)
  then obtain v where v: "parse_document ps text format = Inr (Some v)"
    using first flags by (cases r) (simp_all add: normalizeContent_def)
  have n: "n = stringify2 (canonical_value lc opts v)"
    using first flags normalizeContent_parsed [OF v, of lc opts] by (simp add: text_options_def)
  have "parse_document ps n format = Inr (Some (canonical_value lc opts v))"
    using reread v by blast
  then have "normalizeContent ps lc n format opts =
      Some (text_options opts (stringify2 (canonical_value lc opts (canonical_value lc opts v))))"
    by (rule normalizeContent_parsed)
  then show ?thesis
    using flags total by (simp add: text_options_def n canonical_value_idem)
qed

theorem normalizeContent_idempotent_witness:
  "\<not> ignoreWhitespace (defaultOptions\<lparr>ignoreKeyOrder := True, ignoreArrayOrder := True\<rparr>)
   \<and> \<not> ignoreCase (defaultOptions\<lparr>ignoreKeyOrder := True, ignoreArrayOrder := True\<rparr>)
   \<and> (\<forall>a b. codeunit_compare a b \<le> 0 \<or> codeunit_compare b a \<le> 0)
   \<and> normalizeContent sample_parsers codeunit_compare doc_ba Json
        (defaultOptions\<lparr>ignoreKeyOrder := True, ignoreArrayOrder := True\<rparr>) = Some canon_ba
   \<and> parse_document sample_parsers doc_ba Json =
        Inr (Some (JObj [(''b'', JArr [JNum 2, JNum 1]), (''a'', JNum 1)]))
   \<and> parse_document sample_parsers canon_ba Json =
        Inr (Some (canonical_value codeunit_compare
          (defaultOptions\<lparr>ignoreKeyOrder := True, ignoreArrayOrder := True\<rparr>)
          (JObj [(''b'', JArr [JNum 2, JNum 1]), (''a'', JNum 1)])))
   \<and> normalizeContent sample_parsers codeunit_compare canon_ba Json
        (defaultOptions\<lparr>ignoreKeyOrder := True, ignoreArrayOrder := True\<rparr>) = Some canon_ba"
proof -
  let ?o = "defaultOptions\<lparr>ignoreKeyOrder := True, ignoreArrayOrder := True\<rparr>"
  have f: "\<not> ignoreWhitespace ?o" "\<not> ignoreCase ?o"
    by (simp_all add: defaultOptions_def)
  have n: "normalizeContent sample_parsers codeunit_compare doc_ba Json ?o = Some canon_ba"
    by code_simp
  have p: "parse_document sample_parsers doc_ba Json =
        Inr (Some (JObj [(''b'', JArr [JNum 2, JNum 1]), (''a'', JNum 1)]))"
    by code_simp
  have q: "parse_document sample_parsers canon_ba Json =
        Inr (Some (canonical_value codeunit_compare ?o
          (JObj [(''b'', JArr [JNum 2, JNum 1]), (''a'', JNum 1)])))"
    by code_simp
  have t: "\<forall>a b. codeunit_compare a b \<le> 0 \<or> codeunit_compare b a \<le> 0"
    using codeunit_compare_total by blast
  have "normalizeContent sample_parsers codeunit_compare canon_ba Json ?o = Some canon_ba"
    using normalizeContent_idempotent [OF f t n] p q by simp
  then show ?thesis
    using f n p q t by blast
qed

subsection \<open>Word spans\<close>

lemma greedy_pairs_bounds:
  "(a, b) \<in> set (greedy_pairs ts us i j) \<Longrightarrow>
   i \<le> a \<and> j \<le> b \<and> a < length ts \<and> b < length us \<and> ts ! a = L_removed \<and> us ! b = L_added"
proof (induction ts us i j rule: greedy_pairs.induct)
  case (1 ts us i j)
  show ?case
  proof (cases "i < length ts \<or> j < length us")
    case False
    then show ?thesis
      using "1.prems" by (simp add: greedy_pairs.simps [of ts us i j])
  next
    case loop: True
    show ?thesis
    proof (cases "i < length ts \<and> ts ! i = L_removed \<and> j < length us \<and> us ! j = L_added")
      case True
      then show ?thesis
        using "1.prems" "1.IH"(1) [OF loop True]
        by (auto simp: greedy_pairs.simps [of ts us i j])
    next
      case False
      then show ?thesis
        using "1.prems" "1.IH"(2-4) [OF loop False] loop
        by (auto simp: greedy_pairs.simps [of ts us i j] split: if_splits)
    qed
  qed
qed

lemma map_of_greedy_later:
  "k < i \<Longrightarrow> map_of (greedy_pairs ts us i j) k = None"
  "k < j \<Longrightarrow> map_of (map prod.swap (greedy_pairs ts us i j)) k = None"
proof -
  show "k < i \<Longrightarrow> map_of (greedy_pairs ts us i j) k = None"
    using greedy_pairs_bounds [of k _ ts us i j]
    by (cases "map_of (greedy_pairs ts us i j) k") (auto dest!: map_of_SomeD)
  show "k < j \<Longrightarrow> map_of (map prod.swap (greedy_pairs ts us i j)) k = None"
    using greedy_pairs_bounds [of _ k ts us i j]
    by (cases "map_of (map prod.swap (greedy_pairs ts us i j)) k") (auto dest!: map_of_SomeD)
qed

lemma computeWordDiff_attach:
  "computeWordDiff d ls rs i j = (ls', rs') \<Longrightarrow>
   length ls' = length ls \<and> length rs' = length rs
   \<and> (\<forall>k<length ls. ls' ! k = attach_left d ls rs (greedy_pairs (map dl_type ls) (map dl_type rs) i j) k)
   \<and> (\<forall>k<length rs. rs' ! k = attach_right d ls rs (greedy_pairs (map dl_type ls) (map dl_type rs) i j) k)"
proof (induction d ls rs i j arbitrary: ls' rs' rule: computeWordDiff.induct)
  case (1 d ls rs i j)
  let ?ts = "map dl_type ls" and ?us = "map dl_type rs"
  show ?case
  proof (cases "i < length ls \<or> j < length rs")
    case False
    then have "greedy_pairs ?ts ?us i j = []"
      by (simp add: greedy_pairs.simps [of ?ts ?us i j])
    moreover have "ls' = ls" "rs' = rs"
      using "1.prems" False by (simp_all add: computeWordDiff.simps [of d ls rs i j])
    ultimately show ?thesis
      by (simp add: attach_left_def attach_right_def)
  next
    case loop: True
    show ?thesis
    proof (cases "i < length ls \<and> dl_type (ls ! i) = L_removed \<and> j < length rs \<and> dl_type (rs ! j) = L_added")
      case True
      define sp where "sp = word_spans (diffWords d (content (ls ! i)) (content (rs ! j)))"
      define ls2 where "ls2 = ls[i := (ls ! i)\<lparr>wordDiff := Some (fst sp)\<rparr>]"
      define rs2 where "rs2 = rs[j := (rs ! j)\<lparr>wordDiff := Some (snd sp)\<rparr>]"
      have rec: "computeWordDiff d ls2 rs2 (i + 1) (j + 1) = (ls', rs')"
        using "1.prems" True
        by (simp add: computeWordDiff.simps [of d ls rs i j] Let_def ls2_def rs2_def sp_def)
      have ty: "map dl_type ls2 = ?ts" "map dl_type rs2 = ?us"
        using True by (simp_all add: ls2_def rs2_def map_update list_update_same_conv)
      have ct: "content (ls2 ! k) = content (ls ! k)" "content (rs2 ! k) = content (rs ! k)" for k
      proof -
        show "content (ls2 ! k) = content (ls ! k)"
          using True by (cases "k = i") (simp_all add: ls2_def)
        show "content (rs2 ! k) = content (rs ! k)"
          using True by (cases "k = j") (simp_all add: rs2_def)
      qed
      have gp: "greedy_pairs ?ts ?us i j = (i, j) # greedy_pairs ?ts ?us (i + 1) (j + 1)"
        using True by (simp add: greedy_pairs.simps [of ?ts ?us i j])
      have IH: "length ls' = length ls2 \<and> length rs' = length rs2
        \<and> (\<forall>k<length ls2. ls' ! k = attach_left d ls2 rs2
              (greedy_pairs (map dl_type ls2) (map dl_type rs2) (i + 1) (j + 1)) k)
        \<and> (\<forall>k<length rs2. rs' ! k = attach_right d ls2 rs2
              (greedy_pairs (map dl_type ls2) (map dl_type rs2) (i + 1) (j + 1)) k)"
        unfolding ls2_def rs2_def sp_def
        by (rule "1.IH"(1) [OF loop True refl refl refl refl])
          (use rec in \<open>simp only: ls2_def rs2_def sp_def\<close>)
      have lens: "length ls2 = length ls" "length rs2 = length rs"
        by (simp_all add: ls2_def rs2_def)
      have L: "ls' ! k = attach_left d ls2 rs2 (greedy_pairs ?ts ?us (i + 1) (j + 1)) k"
        if "k < length ls" for k
        using IH that lens ty by simp
      have R: "rs' ! k = attach_right d ls2 rs2 (greedy_pairs ?ts ?us (i + 1) (j + 1)) k"
        if "k < length rs" for k
        using IH that lens ty by simp
      have len: "length ls' = length ls" "length rs' = length rs"
        using IH lens by simp_all
      have left: "ls' ! k = attach_left d ls rs (greedy_pairs ?ts ?us i j) k" if "k < length ls" for k
      proof (cases "k = i")
        case True
        have "map_of (greedy_pairs ?ts ?us (i + 1) (j + 1)) i = None"
          by (rule map_of_greedy_later(1)) simp
        then show ?thesis
          using L [OF that] that True
          by (simp add: gp attach_left_def ls2_def sp_def)
      next
        case False
        then have "ls2 ! k = ls ! k"
          by (simp add: ls2_def)
        then show ?thesis
          using L [OF that] False ct(2)
          by (simp add: gp attach_left_def split: option.splits)
      qed
      have right: "rs' ! k = attach_right d ls rs (greedy_pairs ?ts ?us i j) k" if "k < length rs" for k
      proof (cases "k = j")
        case True
        have "map_of (map prod.swap (greedy_pairs ?ts ?us (i + 1) (j + 1))) j = None"
          by (rule map_of_greedy_later(2)) simp
        then show ?thesis
          using R [OF that] that True
          by (simp add: gp attach_right_def rs2_def sp_def)
      next
        case False
        then have "rs2 ! k = rs ! k"
          by (simp add: rs2_def)
        then show ?thesis
          using R [OF that] False ct(1)
          by (simp add: gp attach_right_def split: option.splits)
      qed
      show ?thesis
        using len left right by blast
    next
      case nopair: False
      consider (left) "i < length ls \<and> dl_type (ls ! i) = L_removed"
        | (right) "\<not> (i < length ls \<and> dl_type (ls ! i) = L_removed)"
                  "j < length rs \<and> dl_type (rs ! j) = L_added"
        | (both) "\<not> (i < length ls \<and> dl_type (ls ! i) = L_removed)"
                 "\<not> (j < length rs \<and> dl_type (rs ! j) = L_added)"
        by blast
      then show ?thesis
      proof cases
        case left
        have "greedy_pairs ?ts ?us i j = greedy_pairs ?ts ?us (i + 1) j"
          using loop nopair left by (auto simp: greedy_pairs.simps [of ?ts ?us i j])
        moreover have "computeWordDiff d ls rs (i + 1) j = (ls', rs')"
          using "1.prems" loop nopair left
          by (auto simp: computeWordDiff.simps [of d ls rs i j] split: if_splits)
        ultimately show ?thesis
          using "1.IH"(2) [OF loop nopair left, of ls' rs'] by simp
      next
        case right
        have "greedy_pairs ?ts ?us i j = greedy_pairs ?ts ?us i (j + 1)"
          using loop nopair right by (auto simp: greedy_pairs.simps [of ?ts ?us i j])
        moreover have "computeWordDiff d ls rs i (j + 1) = (ls', rs')"
          using "1.prems" loop nopair right
          by (auto simp: computeWordDiff.simps [of d ls rs i j] split: if_splits)
        ultimately show ?thesis
          using "1.IH"(3) [OF loop nopair right, of ls' rs'] by simp
      next
        case both
        have "greedy_pairs ?ts ?us i j = greedy_pairs ?ts ?us (i + 1) (j + 1)"
          using loop nopair both by (auto simp: greedy_pairs.simps [of ?ts ?us i j])
        moreover have "computeWordDiff d ls rs (i + 1) (j + 1) = (ls', rs')"
          using "1.prems" loop nopair both
          by (auto simp: computeWordDiff.simps [of d ls rs i j] split: if_splits)
        ultimately show ?thesis
          using "1.IH"(4) [OF loop nopair both, of ls' rs'] by simp
      qed
    qed
  qed
qed

lemma greedy_pairs_distinct:
  "distinct (map fst (greedy_pairs ts us i j)) \<and> distinct (map snd (greedy_pairs ts us i j))"
proof (induction ts us i j rule: greedy_pairs.induct)
  case (1 ts us i j)
  show ?case
  proof (cases "i < length ts \<or> j < length us")
    case False
    then show ?thesis
      by (simp add: greedy_pairs.simps [of ts us i j])
  next
    case loop: True
    show ?thesis
    proof (cases "i < length ts \<and> ts ! i = L_removed \<and> j < length us \<and> us ! j = L_added")
      case True
      have "i \<notin> fst ` set (greedy_pairs ts us (i + 1) (j + 1))"
        "j \<notin> snd ` set (greedy_pairs ts us (i + 1) (j + 1))"
        using greedy_pairs_bounds [of _ _ ts us "i + 1" "j + 1"] by fastforce+
      then show ?thesis
        using "1.IH"(1) [OF loop True] True
        by (simp add: greedy_pairs.simps [of ts us i j])
    next
      case False
      then show ?thesis
        using "1.IH"(2-4) [OF loop False] loop
        by (auto simp: greedy_pairs.simps [of ts us i j])
    qed
  qed
qed

lemma foldl_invariant: "(\<And>st x. P st \<Longrightarrow> P (f st x)) \<Longrightarrow> P st \<Longrightarrow> P (foldl f st xs)"
  by (induction xs arbitrary: st) simp_all

lemma no_spans_lines:
  "no_spans st \<Longrightarrow> no_spans (add_line st line)"
  "no_spans st \<Longrightarrow> no_spans (remove_line st line)"
  "no_spans st \<Longrightarrow> no_spans (keep_line st line)"
  by (simp_all add: no_spans_def add_line_def remove_line_def keep_line_def)

lemma no_spans_apply_hunk: "no_spans st \<Longrightarrow> no_spans (apply_hunk st change)"
  unfolding apply_hunk_def Let_def
  by (auto intro: foldl_invariant [where P = no_spans] no_spans_lines)

lemma no_spans_hunks:
  "no_spans (foldl apply_hunk
     \<lparr>leftLines = [], rightLines = [], leftLineNum = 0, rightLineNum = 0,
      st_addedCount = 0, st_removedCount = 0, st_modifiedCount = 0\<rparr> hunks)"
  by (rule foldl_invariant [where P = no_spans])
    (simp_all add: no_spans_apply_hunk, simp add: no_spans_def)

lemma text_options_showWordDiff:
  "text_options (opts\<lparr>showWordDiff := b\<rparr>) s = text_options opts s"
  by (simp add: text_options_def)

lemma normalizeContent_showWordDiff:
  "normalizeContent ps lc c f (opts\<lparr>showWordDiff := b\<rparr>) = normalizeContent ps lc c f opts"
  by (simp add: normalizeContent_def text_options_showWordDiff split: sum.splits option.splits)

text \<open>
  C9. Take the lines \<open>computeDiff\<close> builds without \<open>showWordDiff\<close>: none of them has
  word spans. With \<open>showWordDiff\<close> the result has the same lines, and the lines of each
  pair of the greedy walk (a removed line on the left, an added line on the right) both
  carry the spans of the word diff of their two texts; every line outside the pairs
  is as it was, and every unchanged line is without spans.
\<close>

theorem computeDiff_word_diff:
  assumes plain: "computeDiff ps lc d l r lf rf (opts\<lparr>showWordDiff := False\<rparr>) = Some plain"
  shows "(\<forall>x\<in>set (dr_left plain) \<union> set (dr_right plain). wordDiff x = None)
    \<and> (\<exists>res. computeDiff ps lc d l r lf rf (opts\<lparr>showWordDiff := True\<rparr>) = Some res
        \<and> length (dr_left res) = length (dr_left plain)
        \<and> length (dr_right res) = length (dr_right plain)
        \<and> (\<forall>(a, b)\<in>set (greedy_pairs (map dl_type (dr_left plain)) (map dl_type (dr_right plain)) 0 0).
              a < length (dr_left plain) \<and> b < length (dr_right plain)
              \<and> dl_type (dr_left plain ! a) = L_removed \<and> dl_type (dr_right plain ! b) = L_added
              \<and> dr_left res ! a = (dr_left plain ! a)\<lparr>wordDiff :=
                   Some (fst (word_spans (diffWords d (content (dr_left plain ! a))
                                                    (content (dr_right plain ! b)))))\<rparr>
              \<and> dr_right res ! b = (dr_right plain ! b)\<lparr>wordDiff :=
                   Some (snd (word_spans (diffWords d (content (dr_left plain ! a))
                                                    (content (dr_right plain ! b)))))\<rparr>)
        \<and> (\<forall>k<length (dr_left plain).
              k \<notin> fst ` set (greedy_pairs (map dl_type (dr_left plain)) (map dl_type (dr_right plain)) 0 0)
              \<longrightarrow> dr_left res ! k = dr_left plain ! k)
        \<and> (\<forall>k<length (dr_right plain).
              k \<notin> snd ` set (greedy_pairs (map dl_type (dr_left plain)) (map dl_type (dr_right plain)) 0 0)
              \<longrightarrow> dr_right res ! k = dr_right plain ! k)
        \<and> (\<forall>x\<in>set (dr_left res) \<union> set (dr_right res). dl_type x = L_unchanged \<longrightarrow> wordDiff x = None))"
proof -
  obtain a b where ab: "normalizeContent ps lc l lf opts = Some a"
    "normalizeContent ps lc r rf opts = Some b"
    using plain by (auto simp: computeDiff_def normalizeContent_showWordDiff split: option.splits)
  define st where "st = foldl apply_hunk
     \<lparr>leftLines = [], rightLines = [], leftLineNum = 0, rightLineNum = 0,
      st_addedCount = 0, st_removedCount = 0, st_modifiedCount = 0\<rparr> (diffLines d a b)"
  define L where "L = leftLines st"
  define R where "R = rightLines st"
  define pairs where "pairs = greedy_pairs (map dl_type L) (map dl_type R) 0 0"
  obtain L' R' where wd: "computeWordDiff d L R 0 0 = (L', R')"
    by (cases "computeWordDiff d L R 0 0")
  define res where "res = \<lparr>dr_left = L', dr_right = R',
                   hasDifferences = (st_addedCount st > 0 \<or> st_removedCount st > 0
                                     \<or> st_modifiedCount st > 0),
                   addedCount = st_addedCount st, removedCount = st_removedCount st,
                   modifiedCount = st_modifiedCount st\<rparr>"
  have pl: "dr_left plain = L" "dr_right plain = R"
    using plain ab unfolding computeDiff_def Let_def st_def L_def R_def
    by (auto simp: normalizeContent_showWordDiff)
  have rs: "computeDiff ps lc d l r lf rf (opts\<lparr>showWordDiff := True\<rparr>) = Some res"
    using ab wd unfolding computeDiff_def Let_def st_def L_def R_def res_def
    by (simp add: normalizeContent_showWordDiff)
  have none: "\<forall>x\<in>set L \<union> set R. wordDiff x = None"
    using no_spans_hunks [of "diffLines d a b"] by (auto simp: no_spans_def L_def R_def st_def)
  note att = computeWordDiff_attach [OF wd, folded pairs_def]
  have len: "length L' = length L" "length R' = length R"
    using att by simp_all
  have dist: "distinct (map fst pairs)" "distinct (map fst (map prod.swap pairs))"
    using greedy_pairs_distinct [of "map dl_type L" "map dl_type R" 0 0]
    by (simp_all add: pairs_def comp_def)
  have inpair: "x < length L \<and> y < length R \<and> dl_type (L ! x) = L_removed \<and> dl_type (R ! y) = L_added
      \<and> L' ! x = (L ! x)\<lparr>wordDiff := Some (fst (word_spans (diffWords d (content (L ! x)) (content (R ! y)))))\<rparr>
      \<and> R' ! y = (R ! y)\<lparr>wordDiff := Some (snd (word_spans (diffWords d (content (L ! x)) (content (R ! y)))))\<rparr>"
    if "(x, y) \<in> set pairs" for x y
  proof -
    have b: "x < length L" "y < length R" "dl_type (L ! x) = L_removed" "dl_type (R ! y) = L_added"
      using greedy_pairs_bounds [OF that [unfolded pairs_def]] by auto
    have "map_of pairs x = Some y" "map_of (map prod.swap pairs) y = Some x"
      using that dist by (simp_all add: map_of_eq_Some_iff image_iff) force
    then show ?thesis
      using att b by (simp add: attach_left_def attach_right_def)
  qed
  have outl: "L' ! k = L ! k" if "k < length L" "k \<notin> fst ` set pairs" for k
  proof -
    have "map_of pairs k = None"
      using that by (simp add: map_of_eq_None_iff)
    then show ?thesis
      using att that by (simp add: attach_left_def)
  qed
  have outr: "R' ! k = R ! k" if "k < length R" "k \<notin> snd ` set pairs" for k
  proof -
    have "map_of (map prod.swap pairs) k = None"
      using that by (force simp: map_of_eq_None_iff)
    then show ?thesis
      using att that by (simp add: attach_right_def)
  qed
  have unch: "wordDiff x = None" if mem: "x \<in> set L' \<union> set R'" and un: "dl_type x = L_unchanged" for x
  proof -
    consider k where "k < length L" "x = L' ! k" | k where "k < length R" "x = R' ! k"
      using mem len by (auto simp: in_set_conv_nth)
    then show ?thesis
    proof cases
      case 1
      show ?thesis
      proof (cases "k \<in> fst ` set pairs")
        case True
        then obtain y where "(k, y) \<in> set pairs"
          by force
        then show ?thesis
          using inpair [of k y] un 1 by simp
      next
        case False
        then show ?thesis
          using outl [of k] 1 none by simp
      qed
    next
      case 2
      show ?thesis
      proof (cases "k \<in> snd ` set pairs")
        case True
        then obtain y where "(y, k) \<in> set pairs"
          by force
        then show ?thesis
          using inpair [of y k] un 2 by simp
      next
        case False
        then show ?thesis
          using outr [of k] 2 none by simp
      qed
    qed
  qed
  show ?thesis
    unfolding pl pairs_def [symmetric]
    using none rs len inpair outl outr unch
    by (intro conjI exI [of _ res]) (auto simp: res_def)
qed

theorem computeDiff_word_diff_witness:
  "computeDiff sample_parsers codeunit_compare sample_differ text_abc text_axc Json Json
     (defaultOptions\<lparr>showWordDiff := False\<rparr>) =
     Some \<lparr>dr_left =
             [\<lparr>lineNumber = 1, content = ''a'', dl_type = L_unchanged, wordDiff = None\<rparr>,
              \<lparr>lineNumber = 2, content = ''b'', dl_type = L_removed, wordDiff = None\<rparr>,
              \<lparr>lineNumber = 3, content = ''c'', dl_type = L_unchanged, wordDiff = None\<rparr>],
           dr_right =
             [\<lparr>lineNumber = 1, content = ''a'', dl_type = L_unchanged, wordDiff = None\<rparr>,
              \<lparr>lineNumber = 2, content = ''x'', dl_type = L_added, wordDiff = None\<rparr>,
              \<lparr>lineNumber = 3, content = ''c'', dl_type = L_unchanged, wordDiff = None\<rparr>],
           hasDifferences = True, addedCount = 1, removedCount = 1, modifiedCount = 0\<rparr>
   \<and> greedy_pairs [L_unchanged, L_removed, L_unchanged] [L_unchanged, L_added, L_unchanged] 0 0
       = [(1, 1)]
   \<and> (\<exists>res. computeDiff sample_parsers codeunit_compare sample_differ text_abc text_axc Json Json
         (defaultOptions\<lparr>showWordDiff := True\<rparr>) = Some res
       \<and> dr_left res ! 0 =
           \<lparr>lineNumber = 1, content = ''a'', dl_type = L_unchanged, wordDiff = None\<rparr>
       \<and> dr_left res ! 1 =
           \<lparr>lineNumber = 2, content = ''b'', dl_type = L_removed,
            wordDiff = Some [\<lparr>wd_value = ''b'', wd_type = W_removed\<rparr>]\<rparr>
       \<and> dr_right res ! 1 =
           \<lparr>lineNumber = 2, content = ''x'', dl_type = L_added,
            wordDiff = Some [\<lparr>wd_value = ''x'', wd_type = W_added\<rparr>]\<rparr>
       \<and> dr_right res ! 2 =
           \<lparr>lineNumber = 3, content = ''c'', dl_type = L_unchanged, wordDiff = None\<rparr>)"
proof -
  have e: "computeDiff sample_parsers codeunit_compare sample_differ text_abc text_axc Json Json
     (defaultOptions\<lparr>showWordDiff := False\<rparr>) =
     Some \<lparr>dr_left =
             [\<lparr>lineNumber = 1, content = ''a'', dl_type = L_unchanged, wordDiff = None\<rparr>,
              \<lparr>lineNumber = 2, content = ''b'', dl_type = L_removed, wordDiff = None\<rparr>,
              \<lparr>lineNumber = 3, content = ''c'', dl_type = L_unchanged, wordDiff = None\<rparr>],
           dr_right =
             [\<lparr>lineNumber = 1, content = ''a'', dl_type = L_unchanged, wordDiff = None\<rparr>,
              \<lparr>lineNumber = 2, content = ''x'', dl_type = L_added, wordDiff = None\<rparr>,
              \<lparr>lineNumber = 3, content = ''c'', dl_type = L_unchanged, wordDiff = None\<rparr>],
           hasDifferences = True, addedCount = 1, removedCount = 1, modifiedCount = 0\<rparr>"
    by code_simp
  have g: "greedy_pairs [L_unchanged, L_removed, L_unchanged] [L_unchanged, L_added, L_unchanged] 0 0
       = [(1, 1)]"
    by code_simp
  have w: "word_spans (diffWords sample_differ ''b'' ''x'') =
      ([\<lparr>wd_value = ''b'', wd_type = W_removed\<rparr>], [\<lparr>wd_value = ''x'', wd_type = W_added\<rparr>])"
    by code_simp
  have "\<exists>res. computeDiff sample_parsers codeunit_compare sample_differ text_abc text_axc Json Json
         (defaultOptions\<lparr>showWordDiff := True\<rparr>) = Some res
       \<and> dr_left res ! 0 =
           \<lparr>lineNumber = 1, content = ''a'', dl_type = L_unchanged, wordDiff = None\<rparr>
       \<and> dr_left res ! 1 =
           \<lparr>lineNumber = 2, content = ''b'', dl_type = L_removed,
            wordDiff = Some [\<lparr>wd_value = ''b'', wd_type = W_removed\<rparr>]\<rparr>
       \<and> dr_right res ! 1 =
           \<lparr>lineNumber = 2, content = ''x'', dl_type = L_added,
            wordDiff = Some [\<lparr>wd_value = ''x'', wd_type = W_added\<rparr>]\<rparr>
       \<and> dr_right res ! 2 =
           \<lparr>lineNumber = 3, content = ''c'', dl_type = L_unchanged, wordDiff = None\<rparr>"
    using computeDiff_word_diff [OF e] by (simp add: g w) (force simp: numeral_2_eq_2)
  then show ?thesis
    using e g by simp
qed

subsection \<open>Counts\<close>

lemma counts_ok_add_line: "counts_ok st \<Longrightarrow> counts_ok (add_line st line)"
  by (simp add: counts_ok_def add_line_def count_type_def)

lemma counts_ok_remove_line: "counts_ok st \<Longrightarrow> counts_ok (remove_line st line)"
  by (simp add: counts_ok_def remove_line_def count_type_def)

lemma counts_ok_keep_line: "counts_ok st \<Longrightarrow> counts_ok (keep_line st line)"
  by (simp add: counts_ok_def keep_line_def count_type_def)

lemma counts_ok_apply_hunk: "counts_ok st \<Longrightarrow> counts_ok (apply_hunk st change)"
  unfolding apply_hunk_def Let_def
  by (auto intro: foldl_invariant [where P = counts_ok] counts_ok_add_line counts_ok_remove_line
      counts_ok_keep_line)

lemma counts_ok_hunks:
  "counts_ok (foldl apply_hunk
     \<lparr>leftLines = [], rightLines = [], leftLineNum = 0, rightLineNum = 0,
      st_addedCount = 0, st_removedCount = 0, st_modifiedCount = 0\<rparr> hunks)"
  by (rule foldl_invariant [where P = counts_ok])
    (simp_all add: counts_ok_apply_hunk, simp add: counts_ok_def count_type_def)

lemma computeWordDiff_types:
  "computeWordDiff d ls rs i j = (ls', rs') \<Longrightarrow>
   map dl_type ls' = map dl_type ls \<and> map dl_type rs' = map dl_type rs"
proof (induction d ls rs i j arbitrary: ls' rs' rule: computeWordDiff.induct)
  case (1 d ls rs i j)
  show ?case
  proof (cases "i < length ls \<or> j < length rs")
    case False
    then show ?thesis
      using "1.prems" by (simp add: computeWordDiff.simps [of d ls rs i j])
  next
    case True
    note loop = this
    show ?thesis
    proof (cases "i < length ls \<and> dl_type (ls ! i) = L_removed \<and> j < length rs \<and> dl_type (rs ! j) = L_added")
      case True
      then show ?thesis
        using "1.prems" "1.IH"(1) [OF loop True refl refl refl refl, of ls' rs']
        by (simp add: computeWordDiff.simps [of d ls rs i j] Let_def map_update list_update_same_conv)
    next
      case False
      then show ?thesis
        using "1.prems" "1.IH"(2-4) [OF loop False, of ls' rs'] loop
        by (auto simp: computeWordDiff.simps [of d ls rs i j] split: if_splits)
    qed
  qed
qed

lemma count_type_cong: "map dl_type xs = map dl_type ys \<Longrightarrow> count_type t xs = count_type t ys"
proof -
  assume "map dl_type xs = map dl_type ys"
  then have "length (filter (\<lambda>y. y = t) (map dl_type xs)) = length (filter (\<lambda>y. y = t) (map dl_type ys))"
    by simp
  then show ?thesis
    by (simp add: count_type_def filter_map comp_def)
qed

text \<open>
  \<open>computeDiff\<close> has a result exactly when both canonical texts exist, and in
  every result \<open>modifiedCount\<close> is 0, \<open>addedCount\<close> is the number of lines of type
  added on the right, \<open>removedCount\<close> the number of lines of type removed on the left,
  and \<open>hasDifferences\<close> holds exactly when one of the two counts is positive.
\<close>

lemma computeDiff_result_counts:
  "(computeDiff ps lc d l r lf rf opts = None \<longleftrightarrow>
      normalizeContent ps lc l lf opts = None \<or> normalizeContent ps lc r rf opts = None)
   \<and> (computeDiff ps lc d l r lf rf opts = Some res \<longrightarrow>
        modifiedCount res = 0
        \<and> addedCount res = length (filter (\<lambda>x. dl_type x = L_added) (dr_right res))
        \<and> removedCount res = length (filter (\<lambda>x. dl_type x = L_removed) (dr_left res))
        \<and> (hasDifferences res \<longleftrightarrow> addedCount res > 0 \<or> removedCount res > 0))"
proof (intro conjI impI)
  show "computeDiff ps lc d l r lf rf opts = None \<longleftrightarrow>
      normalizeContent ps lc l lf opts = None \<or> normalizeContent ps lc r rf opts = None"
    by (auto simp: computeDiff_def Let_def split: option.splits)
next
  assume res: "computeDiff ps lc d l r lf rf opts = Some res"
  then obtain a b where ab: "normalizeContent ps lc l lf opts = Some a"
    "normalizeContent ps lc r rf opts = Some b"
    by (auto simp: computeDiff_def split: option.splits)
  define st where "st = foldl apply_hunk
     \<lparr>leftLines = [], rightLines = [], leftLineNum = 0, rightLineNum = 0,
      st_addedCount = 0, st_removedCount = 0, st_modifiedCount = 0\<rparr> (diffLines d a b)"
  define lr where "lr = (if showWordDiff opts then computeWordDiff d (leftLines st) (rightLines st) 0 0
                    else (leftLines st, rightLines st))"
  have ok: "counts_ok st"
    unfolding st_def by (rule counts_ok_hunks)
  have ty: "map dl_type (fst lr) = map dl_type (leftLines st)"
    "map dl_type (snd lr) = map dl_type (rightLines st)"
    using computeWordDiff_types [of d "leftLines st" "rightLines st" 0 0 "fst lr" "snd lr"]
    by (auto simp: lr_def)
  have r: "res = \<lparr>dr_left = fst lr, dr_right = snd lr,
                   hasDifferences = (st_addedCount st > 0 \<or> st_removedCount st > 0
                                     \<or> st_modifiedCount st > 0),
                   addedCount = st_addedCount st, removedCount = st_removedCount st,
                   modifiedCount = st_modifiedCount st\<rparr>"
    using res ab unfolding computeDiff_def Let_def st_def lr_def by auto
  show "modifiedCount res = 0"
    "addedCount res = length (filter (\<lambda>x. dl_type x = L_added) (dr_right res))"
    "removedCount res = length (filter (\<lambda>x. dl_type x = L_removed) (dr_left res))"
    "hasDifferences res \<longleftrightarrow> addedCount res > 0 \<or> removedCount res > 0"
    using ok count_type_cong [OF ty(1), of L_removed] count_type_cong [OF ty(2), of L_added]
    by (simp_all add: r counts_ok_def count_type_def)
qed

lemma computeDiff_result_counts_example:
  "computeDiff sample_parsers codeunit_compare sample_differ text_abc text_axc Json Json
     defaultOptions =
     Some \<lparr>dr_left =
             [\<lparr>lineNumber = 1, content = ''a'', dl_type = L_unchanged, wordDiff = None\<rparr>,
              \<lparr>lineNumber = 2, content = ''b'', dl_type = L_removed, wordDiff = None\<rparr>,
              \<lparr>lineNumber = 3, content = ''c'', dl_type = L_unchanged, wordDiff = None\<rparr>],
           dr_right =
             [\<lparr>lineNumber = 1, content = ''a'', dl_type = L_unchanged, wordDiff = None\<rparr>,
              \<lparr>lineNumber = 2, content = ''x'', dl_type = L_added, wordDiff = None\<rparr>,
              \<lparr>lineNumber = 3, content = ''c'', dl_type = L_unchanged, wordDiff = None\<rparr>],
           hasDifferences = True, addedCount = 1, removedCount = 1, modifiedCount = 0\<rparr>"
proof -
  have e: "computeDiff sample_parsers codeunit_compare sample_differ text_abc text_axc Json Json
     defaultOptions =
     Some \<lparr>dr_left =
             [\<lparr>lineNumber = 1, content = ''a'', dl_type = L_unchanged, wordDiff = None\<rparr>,
              \<lparr>lineNumber = 2, content = ''b'', dl_type = L_removed, wordDiff = None\<rparr>,
              \<lparr>lineNumber = 3, content = ''c'', dl_type = L_unchanged, wordDiff = None\<rparr>],
           dr_right =
             [\<lparr>lineNumber = 1, content = ''a'', dl_type = L_unchanged, wordDiff = None\<rparr>,
              \<lparr>lineNumber = 2, content = ''x'', dl_type = L_added, wordDiff = None\<rparr>,
              \<lparr>lineNumber = 3, content = ''c'', dl_type = L_unchanged, wordDiff = None\<rparr>],
           hasDifferences = True, addedCount = 1, removedCount = 1, modifiedCount = 0\<rparr>"
    by code_simp
  show ?thesis
    using e computeDiff_result_counts [of sample_parsers codeunit_compare sample_differ text_abc
        text_axc Json Json defaultOptions]
    by simp
qed

lemma blank_yaml_document: "parse_document sample_parsers '' '' Auto = Inr None"
  by code_simp

text \<open>
  C10. Not every pair of texts has a result. A pane holding one space is read as YAML
  and loads as \<open>undefined\<close>; with neither \<open>ignoreWhitespace\<close> nor \<open>ignoreCase\<close> set,
  \<open>normalizeContent\<close> returns \<open>undefined\<close> for it, and \<open>computeDiff\<close> returns no
  result, whatever the other text. With one of the two options set the same text takes
  the fallback path and is diffed as raw text.
\<close>

theorem computeDiff_blank_text:
  "normalizeContent sample_parsers lc '' '' Auto defaultOptions = None
   \<and> computeDiff sample_parsers lc d '' '' r Auto rf defaultOptions = None
   \<and> computeDiff sample_parsers lc d l '' '' lf Auto defaultOptions = None
   \<and> normalizeContent sample_parsers lc '' '' Auto (defaultOptions\<lparr>ignoreWhitespace := True\<rparr>)
       = Some '' ''
   \<and> normalizeContent sample_parsers lc '' '' Auto (defaultOptions\<lparr>ignoreCase := True\<rparr>)
       = Some '' ''"
proof -
  have n: "normalizeContent sample_parsers lc '' '' Auto defaultOptions = None"
    by (simp add: normalizeContent_def blank_yaml_document defaultOptions_def)
  have w: "collapse_ws '' '' = '' ''" "toLowerCase '' '' = '' ''"
    by code_simp+
  show ?thesis
    using n w
    by (simp add: computeDiff_def normalizeContent_def blank_yaml_document defaultOptions_def
        text_options_def split: option.splits)
qed

end
